theory Spec2Isabelle
  imports Complex_Main "HOL-Library.Sublist"
begin

section \<open>The solver (src/src/solver.c)\<close>

subsection \<open>Objects of the linear-algebra kernel\<close>

text \<open>
  A matrix is its table of entries, a vector the list of its entries. The run is SPMD:
  every rank executes the same statements on identical copies of the flags, and a
  statement guarded by \<open>nid==0\<close> is done by rank 0 alone, so the shared matrix
  receives it once. Printing is left out.
\<close>

type_synonym Mat = "nat \<times> nat \<Rightarrow> complex"
type_synonym Vec = "complex list"

text \<open>\<open>MatSetValue(A,row,col,v,ADD_VALUES)\<close>.\<close>

definition MatSetValue :: "Mat \<Rightarrow> nat \<Rightarrow> nat \<Rightarrow> complex \<Rightarrow> Mat" where
  "MatSetValue A row col v = A((row, col) := A (row, col) + v)"

text \<open>\<open>VecSet(x,v)\<close> and \<open>VecSetValue(x,row,v,INSERT_VALUES)\<close>.\<close>

definition VecSet :: "Vec \<Rightarrow> complex \<Rightarrow> Vec" where
  "VecSet x v = map (\<lambda>_. v) x"

definition VecSetValue :: "Vec \<Rightarrow> nat \<Rightarrow> complex \<Rightarrow> Vec" where
  "VecSetValue x row v = x[row := v]"

text \<open>
  \<open>VecNormalize(U,NULL)\<close> of the kernel scales the vector by the inverse of its
  2-norm and leaves a vector of norm zero as it is.
\<close>

definition VecNorm2 :: "Vec \<Rightarrow> real" where
  "VecNorm2 U = sqrt (\<Sum>z\<leftarrow>U. (cmod z)\<^sup>2)"

definition VecNormalize :: "Vec \<Rightarrow> Vec" where
  "VecNormalize U =
     (if VecNorm2 U = 0 then U else map (\<lambda>z. z / complex_of_real (VecNorm2 U)) U)"

subsection \<open>Operators, time-dependent terms and the globals\<close>

record operator =
  n_before :: nat
  my_levels :: nat
  my_op_type :: int
  position :: nat

text \<open>\<open>num_ops\<close> is the length of \<open>ops\<close>, \<open>_num_time_dep\<close> the length of the list.\<close>

record time_dep_struct =
  time_dep_func :: "real \<Rightarrow> real"
  ops :: "operator list"

record 'mat globals =
  lindblad_terms :: int
  stiff_solver :: int
  time_dep_list :: "time_dep_struct list"
  total_levels :: nat
  print_dense_ham :: int
  num_quantum_gates :: int
  ts_monitor_set :: bool
  stab_added :: int
  matrix_assembled :: int
  full_A :: 'mat
  ham_A :: 'mat
  ham_stiff_A :: 'mat

definition num_time_dep :: "'mat globals \<Rightarrow> nat" where
  "num_time_dep g = length (time_dep_list g)"

text \<open>
  \<open>_add_to_PETSc_kron(A, c, n_before, my_levels, my_op_type, position, extra_before,
  extra_after)\<close> is declared in kron_p.h; it is a parameter \<open>kron A c op extra_before
  extra_after\<close> of every function that calls it.
\<close>

type_synonym 'mat kron = "'mat \<Rightarrow> complex \<Rightarrow> operator \<Rightarrow> nat \<Rightarrow> nat \<Rightarrow> 'mat"

datatype 'a run = Exit | Return 'a

subsection \<open>The right-hand-side callback\<close>

text \<open>
  \<open>_RHS_time_dep_ham(ts,t,X,AA,BB,ctx)\<close>: the new value of \<open>BB\<close>.
  \<open>MatZeroEntries(BB)\<close> is followed by \<open>MatCopy(full_A,BB,...)\<close>, which overwrites
  every entry.
\<close>

definition MatZeroEntries :: "'mat \<Rightarrow> 'mat \<Rightarrow> 'mat" where
  "MatZeroEntries zero BB = zero"

definition MatCopy :: "'mat \<Rightarrow> 'mat \<Rightarrow> 'mat" where
  "MatCopy A B = A"

definition RHS_op :: "'mat kron \<Rightarrow> nat \<Rightarrow> real \<Rightarrow> 'mat \<Rightarrow> operator \<Rightarrow> 'mat" where
  "RHS_op kron D time_dep_val BB op =
     (let BB1 = kron BB (0 - complex_of_real time_dep_val * \<i>) op D 1
      in kron BB1 (0 + complex_of_real time_dep_val * \<i>) op 1 D)"

definition RHS_term :: "'mat kron \<Rightarrow> nat \<Rightarrow> real \<Rightarrow> 'mat \<Rightarrow> time_dep_struct \<Rightarrow> 'mat" where
  "RHS_term kron D t BB td =
     (let time_dep_val = time_dep_func td t
      in foldl (RHS_op kron D time_dep_val) BB (ops td))"

definition RHS_time_dep_ham ::
  "'mat kron \<Rightarrow> 'mat \<Rightarrow> 'mat globals \<Rightarrow> real \<Rightarrow> 'mat \<Rightarrow> 'mat" where
  "RHS_time_dep_ham kron zero g t BB =
     (let BB0 = MatZeroEntries zero BB;
          BB1 = MatCopy (full_A g) BB0
      in foldl (RHS_term kron (total_levels g) t) BB1 (time_dep_list g))"

text \<open>
  What the specification says the callback does, in its words: copy \<open>full_A\<close> in
  Liouville mode and \<open>ham_A\<close> in Schroedinger mode; then for every term and operator add
  \<open>-i f(t) (I kron O)\<close> and \<open>+i f(t) (O kron I)\<close> in Liouville mode, \<open>-i f(t) O\<close> only in
  Schroedinger mode.
\<close>

definition spec_RHS_op :: "'mat kron \<Rightarrow> bool \<Rightarrow> nat \<Rightarrow> real \<Rightarrow> 'mat \<Rightarrow> operator \<Rightarrow> 'mat" where
  "spec_RHS_op kron liouville D v BB op =
     (if liouville
      then kron (kron BB (- (complex_of_real v * \<i>)) op D 1) (complex_of_real v * \<i>) op 1 D
      else kron BB (- (complex_of_real v * \<i>)) op 1 1)"

definition spec_RHS :: "'mat kron \<Rightarrow> 'mat globals \<Rightarrow> real \<Rightarrow> 'mat" where
  "spec_RHS kron g t =
     (let liouville = (lindblad_terms g \<noteq> 0)
      in foldl (\<lambda>BB td. foldl (spec_RHS_op kron liouville (total_levels g) (time_dep_func td t))
                          BB (ops td))
           (if liouville then full_A g else ham_A g) (time_dep_list g))"

text \<open>
  A matrix that records what was done to it: the name of the matrix it was copied from
  and the contributions added, in order.
\<close>

type_synonym call_log = "string \<times> (complex \<times> operator \<times> nat \<times> nat) list"

definition kron_log :: "call_log kron" where
  "kron_log A c op extra_before extra_after = (fst A, snd A @ [(c, op, extra_before, extra_after)])"

subsection \<open>The normalization event\<close>

text \<open>\<open>_Normalize_EventFunction\<close>: the array \<open>fvalue\<close> afterwards, and the error code.\<close>

definition Normalize_EventFunction :: "real \<Rightarrow> Vec \<Rightarrow> complex list \<Rightarrow> complex list \<times> int" where
  "Normalize_EventFunction t U fvalue = (fvalue[0 := 0], 0)"

datatype event_fn = QG_Event | Normalize_Event

record event_handler =
  nevents :: nat
  direction :: int
  terminate :: bool
  handler_fns :: event_fn

datatype ts_type = TSRK3BS | TSROSW

datatype 'mat jacobian = NoJacobian | JacobianConstant 'mat | JacobianTimeDep 'mat

record TS =
  monitor :: bool
  ifunction :: bool
  rhs_jacobian :: "Mat jacobian"
  i_jacobian :: "Mat jacobian"
  initial_dt :: real
  duration :: "int \<times> real"
  ts_method :: "ts_type option"
  event :: "event_handler option"
  solution :: "Vec option"

definition TSCreate :: TS where
  "TSCreate = \<lparr>monitor = False, ifunction = False, rhs_jacobian = NoJacobian,
     i_jacobian = NoJacobian, initial_dt = 0, duration = (0, 0), ts_method = None,
     event = None, solution = None\<rparr>"

definition TSSetEventHandler :: "TS \<Rightarrow> nat \<Rightarrow> int \<Rightarrow> bool \<Rightarrow> event_fn \<Rightarrow> TS" where
  "TSSetEventHandler ts n d term f =
     ts\<lparr>event := Some \<lparr>nevents = n, direction = d, terminate = term, handler_fns = f\<rparr>\<rparr>"

text \<open>\<open>_Normalize_PostEventFunction\<close>: the vector and the solver afterwards.\<close>

definition Normalize_PostEventFunction :: "TS \<Rightarrow> real \<Rightarrow> Vec \<Rightarrow> TS \<times> Vec" where
  "Normalize_PostEventFunction ts t U =
     (let U' = VecNormalize U in (ts\<lparr>solution := Some U'\<rparr>, U'))"

subsection \<open>steady_state and time_step\<close>

text \<open>The stabilization loop: \<open>v\<close> is added in row 0 at the columns \<open>i*(total_levels+1)\<close>.\<close>

definition stab_row :: "Mat \<Rightarrow> nat \<Rightarrow> complex \<Rightarrow> Mat" where
  "stab_row A D v = foldl (\<lambda>A i. MatSetValue A 0 (i * (D + 1)) v) A [0..<D]"

text \<open>The loop that adds 0 to the diagonal, over the rows of all ranks.\<close>

definition add_zero_diag :: "Mat \<Rightarrow> nat \<Rightarrow> Mat" where
  "add_zero_diag A nrows = foldl (\<lambda>A i. MatSetValue A i i 0) A [0..<nrows]"

datatype pc_type = PCASM | PCOther
datatype ksp_type = KSPGMRES | KSPOther

record KSP =
  ksp_operators :: "(Mat \<times> Mat) option"
  rtol :: "real option"
  pc :: "pc_type option"
  solver :: "ksp_type option"
  gmres_restart :: "nat option"

definition KSPCreate :: KSP where
  "KSPCreate = \<lparr>ksp_operators = None, rtol = None, pc = None, solver = None, gmres_restart = None\<rparr>"

definition default_rtol :: real where
  "default_rtol = 1 / 10 ^ 11"

definition default_restart :: nat where
  "default_restart = 100"

record steady_result =
  st_globals :: "Mat globals"
  st_b :: Vec
  st_x0 :: Vec
  st_ksp :: KSP
  st_x :: Vec

text \<open>
  \<open>steady_state(x)\<close>. \<open>KSPSetFromOptions\<close> and \<open>KSPSolve\<close> belong to the kernel and
  are parameters. The result keeps the globals, the right-hand side \<open>b\<close>, the start
  vector, the solver as configured before the command-line options are read, and the
  solution.
\<close>

definition steady_state ::
  "(KSP \<Rightarrow> KSP) \<Rightarrow> (KSP \<Rightarrow> Vec \<Rightarrow> Vec \<Rightarrow> Vec) \<Rightarrow> Mat globals \<Rightarrow> Vec \<Rightarrow> steady_result run" where
  "steady_state KSPSetFromOptions KSPSolve g x =
     (if lindblad_terms g = 0 then Exit
      else
        let nrows = total_levels g * total_levels g;
            g1 = (if stab_added g = 0
                  then g\<lparr>full_A := stab_row (full_A g) (total_levels g) (1 + 0 * \<i>),
                         print_dense_ham := 0, stab_added := 1\<rparr>
                  else g);
            g2 = g1\<lparr>full_A := add_zero_diag (full_A g1) nrows, matrix_assembled := 1\<rparr>;
            b0 = VecSet (replicate nrows 0) 0;
            x0 = VecSet x 0;
            x1 = VecSetValue x0 0 (1 + 0 * \<i>);
            b1 = VecSetValue b0 0 (1 + 0 * \<i>);
            ksp = KSPCreate\<lparr>ksp_operators := Some (full_A g2, full_A g2)\<rparr>;
            ksp = ksp\<lparr>rtol := Some default_rtol\<rparr>;
            ksp = ksp\<lparr>pc := Some PCASM\<rparr>;
            ksp = ksp\<lparr>solver := Some KSPGMRES\<rparr>;
            ksp = ksp\<lparr>gmres_restart := Some default_restart\<rparr>
        in Return \<lparr>st_globals = g2, st_b = b1, st_x0 = x1, st_ksp = ksp,
                    st_x = KSPSolve (KSPSetFromOptions ksp) b1 x1\<rparr>)"

text \<open>The zero contributions that \<open>time_step\<close> registers for one operator.\<close>

definition zero_op :: "Mat kron \<Rightarrow> bool \<Rightarrow> nat \<Rightarrow> Mat \<Rightarrow> operator \<Rightarrow> Mat" where
  "zero_op kron liouville D A op =
     (if liouville
      then kron (kron A (0 + 0 * \<i>) op D 1) (0 + 0 * \<i>) op 1 D
      else kron A (0 + 0 * \<i>) op 1 1)"

definition zero_terms :: "Mat kron \<Rightarrow> bool \<Rightarrow> nat \<Rightarrow> time_dep_struct list \<Rightarrow> Mat \<Rightarrow> Mat" where
  "zero_terms kron liouville D tds A =
     foldl (\<lambda>A td. foldl (zero_op kron liouville D) A (ops td)) A tds"

text \<open>\<open>solve_A\<close> is a handle on \<open>full_A\<close> or on \<open>ham_A\<close>: a write through it lands there.\<close>

definition solve_A :: "Mat globals \<Rightarrow> Mat" where
  "solve_A g = (if lindblad_terms g \<noteq> 0 then full_A g else ham_A g)"

definition set_solve_A :: "Mat globals \<Rightarrow> Mat \<Rightarrow> Mat globals" where
  "set_solve_A g A = (if lindblad_terms g \<noteq> 0 then g\<lparr>full_A := A\<rparr> else g\<lparr>ham_A := A\<rparr>)"

record step_result =
  ts_globals :: "Mat globals"
  ts_ts :: TS
  ts_x :: Vec

text \<open>
  \<open>time_step(x,time_max,dt,steps_max)\<close>, in the order of the source: the two
  rejections; the dense Hamiltonian is printed and its flag cleared; the stabilization is
  removed; zeros are added to the diagonals; the zero contributions of the time-dependent
  terms are registered; the integrator is configured and run.
\<close>

definition time_step_rejects :: "Mat globals \<Rightarrow> bool" where
  "time_step_rejects g =
     (if lindblad_terms g \<noteq> 0 then stiff_solver g \<noteq> 0
      else num_time_dep g \<noteq> 0 \<and> stiff_solver g \<noteq> 0)"

definition print_dense :: "Mat globals \<Rightarrow> Mat globals" where
  "print_dense g = (if print_dense_ham g \<noteq> 0 then g\<lparr>print_dense_ham := 0\<rparr> else g)"

definition remove_stabilization :: "Mat globals \<Rightarrow> Mat globals" where
  "remove_stabilization g =
     (if stab_added g \<noteq> 0
      then g\<lparr>full_A := stab_row (full_A g) (total_levels g) (- 1 + 0 * \<i>)\<rparr> else g)"

definition zero_diagonals :: "Mat globals \<Rightarrow> Mat globals" where
  "zero_diagonals g =
     (let nrows = (if lindblad_terms g \<noteq> 0 then total_levels g * total_levels g
                   else total_levels g);
          g1 = set_solve_A g (add_zero_diag (solve_A g) nrows)
      in if stiff_solver g1 \<noteq> 0
         then g1\<lparr>ham_stiff_A := add_zero_diag (ham_stiff_A g1) nrows\<rparr> else g1)"

definition register_time_dep :: "Mat kron \<Rightarrow> Mat globals \<Rightarrow> Mat globals" where
  "register_time_dep kron g =
     (if num_time_dep g \<noteq> 0
      then set_solve_A g
             (zero_terms kron (lindblad_terms g \<noteq> 0) (total_levels g) (time_dep_list g)
                (solve_A g))
      else g)"

text \<open>
  The integrator as \<open>time_step\<close> configures it, from the globals after the matrices
  are prepared. A second \<open>TSSetEventHandler\<close> replaces the handler of the first.
\<close>

definition configure_ts :: "Mat globals \<Rightarrow> real \<Rightarrow> real \<Rightarrow> int \<Rightarrow> TS" where
  "configure_ts g time_max dt steps_max =
     (let ts = TSCreate;
          ts = (if ts_monitor_set g then ts\<lparr>monitor := True\<rparr> else ts);
          ts = (if stiff_solver g \<noteq> 0 then ts\<lparr>ifunction := True\<rparr> else ts);
          ts = (if num_time_dep g \<noteq> 0 then ts\<lparr>rhs_jacobian := JacobianTimeDep (solve_A g)\<rparr>
                else (if stiff_solver g \<noteq> 0
                      then ts\<lparr>i_jacobian := JacobianConstant (ham_stiff_A g)\<rparr> else ts)
                     \<lparr>rhs_jacobian := JacobianConstant (solve_A g)\<rparr>);
          ts = ts\<lparr>initial_dt := dt\<rparr>;
          ts = ts\<lparr>duration := (steps_max, time_max)\<rparr>;
          ts = ts\<lparr>ts_method := Some (if stiff_solver g \<noteq> 0 then TSROSW else TSRK3BS)\<rparr>;
          ts = (if num_quantum_gates g > 0
                then TSSetEventHandler ts 1 (- 1) False QG_Event else ts)
      in if lindblad_terms g \<noteq> 0
         then TSSetEventHandler ts 1 0 False Normalize_Event else ts)"

text \<open>
  \<open>TSSetFromOptions\<close> and \<open>TSSolve\<close> belong to the kernel and are parameters.
  \<open>exit(0)\<close> is the value \<open>Exit\<close>. The result keeps the globals, the integrator as
  configured before the command-line options are read, and the vector that \<open>TSSolve\<close>
  leaves.
\<close>

definition time_step ::
  "Mat kron \<Rightarrow> (TS \<Rightarrow> TS) \<Rightarrow> (TS \<Rightarrow> Vec \<Rightarrow> Vec) \<Rightarrow> Mat globals \<Rightarrow> Vec \<Rightarrow> real \<Rightarrow> real \<Rightarrow> int
     \<Rightarrow> step_result run" where
  "time_step kron TSSetFromOptions TSSolve g x time_max dt steps_max =
     (if time_step_rejects g then Exit
      else
        let g1 = register_time_dep kron (zero_diagonals (remove_stabilization (print_dense g)));
            ts = configure_ts g1 time_max dt steps_max
        in Return \<lparr>ts_globals = g1, ts_ts = ts, ts_x = TSSolve (TSSetFromOptions ts) x\<rparr>)"

section \<open>The Hamiltonian parser (src/xacc/Utils/Hamiltonian.cpp)\<close>

subsection \<open>Characters and strings\<close>

text \<open>\<open>std::isspace\<close>, \<open>isalpha\<close> and \<open>::toupper\<close> in the C locale, on bytes.\<close>

definition isspace :: "char \<Rightarrow> bool" where
  "isspace c = (c \<in> set [CHR 0x20, CHR 0x09, CHR 0x0A, CHR 0x0B, CHR 0x0C, CHR 0x0D])"

definition isdigit :: "char \<Rightarrow> bool" where
  "isdigit c = (c \<in> set ''0123456789'')"

definition isalpha :: "char \<Rightarrow> bool" where
  "isalpha c = (c \<in> set ''ABCDEFGHIJKLMNOPQRSTUVWXYZabcdefghijklmnopqrstuvwxyz'')"

definition toupper :: "char \<Rightarrow> char" where
  "toupper c =
     (case map_of (zip ''abcdefghijklmnopqrstuvwxyz'' ''ABCDEFGHIJKLMNOPQRSTUVWXYZ'') c of
        Some u \<Rightarrow> u | None \<Rightarrow> c)"

definition removeWhiteSpaces :: "string \<Rightarrow> string" where
  "removeWhiteSpaces in_str = filter (\<lambda>c. \<not> isspace c) in_str"

definition toUpperCase :: "string \<Rightarrow> string" where
  "toUpperCase in_str = map toupper in_str"

text \<open>\<open>isNumberString\<close>: no character other than a digit; true of the empty string.\<close>

definition isNumberString :: "string \<Rightarrow> bool" where
  "isNumberString in_str = (find (\<lambda>c. \<not> isdigit c) in_str = None)"

text \<open>
  \<open>std::string::find\<close> of a character and of a string, and \<open>find_last_of\<close> of a
  character: the position, or \<open>None\<close> for \<open>npos\<close>.
\<close>

fun find_char :: "char \<Rightarrow> string \<Rightarrow> nat option" where
  "find_char c [] = None"
| "find_char c (x # xs) = (if x = c then Some 0 else map_option Suc (find_char c xs))"

fun find_str :: "string \<Rightarrow> string \<Rightarrow> nat option" where
  "find_str pat [] = (if pat = [] then Some 0 else None)"
| "find_str pat (x # xs) =
     (if prefix pat (x # xs) then Some 0 else map_option Suc (find_str pat xs))"

definition find_last_of :: "char \<Rightarrow> string \<Rightarrow> nat option" where
  "find_last_of c s = map_option (\<lambda>k. length s - 1 - k) (find_char c (rev s))"

text \<open>The first position whose character fails the test (\<open>std::find_if\<close>).\<close>

fun find_if_not :: "(char \<Rightarrow> bool) \<Rightarrow> string \<Rightarrow> nat option" where
  "find_if_not p [] = None"
| "find_if_not p (x # xs) = (if \<not> p x then Some 0 else map_option Suc (find_if_not p xs))"

subsection \<open>Numbers\<close>

datatype fault = OutOfRange | UndefinedBehaviour | AssertionFailed

definition INT_MAX :: nat where
  "INT_MAX = 2147483647"

definition dec_val :: "string \<Rightarrow> nat" where
  "dec_val s = foldl (\<lambda>a c. 10 * a + (of_char c - 48)) 0 s"

text \<open>
  \<open>std::stoi\<close> on a non-empty string of digits (every call site has checked that):
  the value, or \<open>std::out_of_range\<close> thrown when it does not fit an \<open>int\<close>.
\<close>

definition stoi :: "string \<Rightarrow> fault + nat" where
  "stoi s = (if dec_val s > INT_MAX then Inl OutOfRange else Inr (dec_val s))"

function dec_of_nat :: "nat \<Rightarrow> string" where
  "dec_of_nat n =
     (if n < 10 then [''0123456789'' ! n]
      else dec_of_nat (n div 10) @ [''0123456789'' ! (n mod 10)])"
  by pat_completeness auto
termination
  by (relation "measure id") auto

text \<open>\<open>std::to_string(int)\<close>.\<close>

definition to_string :: "int \<Rightarrow> string" where
  "to_string i = (if i < 0 then CHR ''-'' # dec_of_nat (nat (- i)) else dec_of_nat (nat i))"

text \<open>
  The cast \<open>(int)evalResult\<close> of a double: truncation toward zero, undefined when the
  truncated value does not fit an \<open>int\<close>.
\<close>

definition int_of_double :: "real \<Rightarrow> fault + int" where
  "int_of_double r =
     (let z = (if r < 0 then \<lceil>r\<rceil> else \<lfloor>r\<rfloor>)
      in if z < - 2147483648 \<or> 2147483647 < z then Inl UndefinedBehaviour else Inr z)"

subsection \<open>Terms and the services the parser calls\<close>

type_synonym VarsMap = "(string \<times> real) list"

type_synonym 'op QubitOp = "'op \<times> nat"

datatype 'op HamiltonianTerm =
    TimeIndependentTerm real "'op QubitOp list"
  | TimeDependentTerm string real "'op QubitOp list"
  | SumTerm "'op HamiltonianTerm list"

text \<open>
  \<open>QuaC::ConvertOperatorFromString\<close> (Hamiltonian.hpp; \<open>None\<close> is \<open>Operator::NA\<close>) and
  the expression engine behind \<open>TryEvaluateExpression\<close> are not in the sources; the
  order in which a \<open>std::unordered_map\<close> is iterated is unspecified. The three are
  parameters, kept in one record.
\<close>

record 'op services =
  ConvertOperatorFromString :: "string \<Rightarrow> 'op option"
  TryEvaluateExpression :: "string \<Rightarrow> VarsMap \<Rightarrow> real option"
  map_order :: "string list \<Rightarrow> string list"

type_synonym 'op parsed = "fault + 'op HamiltonianTerm option"

subsection \<open>GetLastOperator and the operator loop\<close>

definition GetLastOperator ::
  "'op services \<Rightarrow> string \<Rightarrow> fault + ('op QubitOp \<times> string) option" where
  "GetLastOperator sv in_str =
     (case find_last_of CHR ''*'' in_str of
        None \<Rightarrow> Inr None
      | Some pos \<Rightarrow>
          let opName = toUpperCase (drop (pos + 1) in_str)
          in case find_if_not isalpha opName of
               None \<Rightarrow> Inr None
             | Some k \<Rightarrow>
                 let opStr = take k opName
                 in if length opStr < 1 then Inr None
                    else case ConvertOperatorFromString sv opStr of
                           None \<Rightarrow> Inr None
                         | Some op \<Rightarrow>
                             let qubitIdxStr = drop k opName
                             in if \<not> isNumberString qubitIdxStr then Inr None
                                else case stoi qubitIdxStr of
                                       Inl e \<Rightarrow> Inl e
                                     | Inr qIdx \<Rightarrow> Inr (Some ((op, qIdx), take pos in_str)))"

lemma find_char_less: "find_char c s = Some k \<Longrightarrow> k < length s"
  by (induction s arbitrary: k) (auto split: if_splits)

lemma find_last_of_less: "find_last_of c s = Some p \<Longrightarrow> p < length s"
  by (auto simp: find_last_of_def dest!: find_char_less)

lemma GetLastOperator_shorter:
  "GetLastOperator sv s = Inr (Some (op, sub)) \<Longrightarrow> length sub < length s"
  by (auto simp: GetLastOperator_def Let_def dest: find_last_of_less
      split: option.splits if_splits sum.splits)

text \<open>
  The loop \<open>while (GetLastOperator(tempStr, tempOp, remainderStr))\<close>: the operators
  pushed and the remainder string, which is only written by a successful call.
\<close>

function parse_operators ::
  "'op services \<Rightarrow> string \<Rightarrow> 'op QubitOp list \<Rightarrow> string \<Rightarrow> fault + ('op QubitOp list \<times> string)" where
  "parse_operators sv tempStr operators remainderStr =
     (case GetLastOperator sv tempStr of
        Inl e \<Rightarrow> Inl e
      | Inr None \<Rightarrow> Inr (operators, remainderStr)
      | Inr (Some (tempOp, sub)) \<Rightarrow> parse_operators sv sub (operators @ [tempOp]) sub)"
  by pat_completeness auto
termination
  by (relation "measure (\<lambda>(sv, tempStr, operators, remainderStr). length tempStr)")
     (auto dest: GetLastOperator_shorter)

text \<open>
  The end of both \<open>fromString\<close> functions for an expression without a parenthesised
  sum: the operator loop, the evaluation of the remainder, the reversed operators.
\<close>

definition product_term ::
  "'op services \<Rightarrow> (real \<Rightarrow> 'op QubitOp list \<Rightarrow> 'op HamiltonianTerm) \<Rightarrow> string \<Rightarrow> VarsMap
     \<Rightarrow> 'op parsed" where
  "product_term sv mk expr in_vars =
     (case parse_operators sv expr [] [] of
        Inl e \<Rightarrow> Inl e
      | Inr (operators, remainderStr) \<Rightarrow>
          (case TryEvaluateExpression sv remainderStr in_vars of
             None \<Rightarrow> Inr None
           | Some evaled \<Rightarrow> Inr (Some (mk evaled (rev operators)))))"

subsection \<open>UnwrapOpExpresion\<close>

text \<open>Both callers pass a string that ends with a closing parenthesis.\<close>

definition UnwrapOpExpresion :: "string \<Rightarrow> string list" where
  "UnwrapOpExpresion in_str =
     (if in_str = [] \<or> last in_str \<noteq> CHR '')'' then []
      else case find_last_of CHR ''('' in_str of
             None \<Rightarrow> []
           | Some pos \<Rightarrow>
               let coeffExpr = take pos in_str;
                   wrappedExpr = butlast (drop (pos + 1) in_str)
               in if find_char CHR ''('' wrappedExpr \<noteq> None \<or>
                     find_char CHR '')'' wrappedExpr \<noteq> None then []
                  else
                    let pmPos = (if find_char CHR ''+'' wrappedExpr = None
                                 then find_char CHR ''-'' wrappedExpr
                                 else find_char CHR ''+'' wrappedExpr)
                    in case pmPos of
                         None \<Rightarrow> []
                       | Some p \<Rightarrow>
                           let expr1 = take p wrappedExpr;
                               expr2 = drop (p + 1) wrappedExpr;
                               signExpr = ''('' @ [wrappedExpr ! p] @ ''1.0)*''
                           in [coeffExpr @ expr1, signExpr @ coeffExpr @ expr2])"

text \<open>The two results of the recursive calls become a sum or null; a fault goes through.\<close>

definition sum_of_two :: "'op parsed \<Rightarrow> 'op parsed \<Rightarrow> 'op parsed" where
  "sum_of_two expr1 expr2 =
     (case expr1 of
        Inl e \<Rightarrow> Inl e
      | Inr r1 \<Rightarrow>
          (case expr2 of
             Inl e \<Rightarrow> Inl e
           | Inr r2 \<Rightarrow>
               (case (r1, r2) of
                  (Some t1, Some t2) \<Rightarrow> Inr (Some (SumTerm [t1, t2]))
                | _ \<Rightarrow> Inr None)))"


subsection \<open>Termination of the two fromString functions\<close>

text \<open>
  A call on a parenthesised sum makes two calls, and the second string may be longer
  than the first. What decreases is the number of opening parentheses that do not begin
  a sign factor \<open>(+1.0)*\<close> or \<open>(-1.0)*\<close>.
\<close>

definition sign_block :: "string \<Rightarrow> bool" where
  "sign_block s = (prefix ''(+1.0)*'' s \<or> prefix ''(-1.0)*'' s)"

fun unsigned_parens :: "string \<Rightarrow> nat" where
  "unsigned_parens [] = 0"
| "unsigned_parens (c # cs) =
     (if c = CHR ''('' \<and> \<not> sign_block (c # cs) then 1 else 0) + unsigned_parens cs"

lemma unsigned_parens_none:
  "CHR ''('' \<notin> set x \<Longrightarrow> unsigned_parens (x @ y) = unsigned_parens y"
  by (induction x) auto

lemma unsigned_parens_sign:
  "pm = CHR ''+'' \<or> pm = CHR ''-'' \<Longrightarrow>
   unsigned_parens (CHR ''('' # pm # ''1.0)*'' @ t) = unsigned_parens t"
  by (auto simp: sign_block_def)

lemma prefix_before_paren:
  "prefix p (cs @ CHR ''('' # t) \<Longrightarrow> CHR ''('' \<notin> set p \<Longrightarrow> prefix p (cs @ u)"
proof -
  assume a: "prefix p (cs @ CHR ''('' # t)" and b: "CHR ''('' \<notin> set p"
  from a have "prefix p cs \<or> (\<exists>us. p = cs @ us \<and> prefix us (CHR ''('' # t))"
    by (simp add: prefix_append)
  then show ?thesis
  proof
    assume "prefix p cs"
    then show ?thesis by (rule prefix_prefix)
  next
    assume "\<exists>us. p = cs @ us \<and> prefix us (CHR ''('' # t)"
    then obtain us where us: "p = cs @ us" "prefix us (CHR ''('' # t)" by blast
    with b have "us = []" by (cases us) auto
    with us show ?thesis by simp
  qed
qed

lemma sign_block_before_paren:
  "sign_block (CHR ''('' # cs @ CHR ''('' # t) \<Longrightarrow> sign_block (CHR ''('' # cs @ u)"
  unfolding sign_block_def
  by (auto dest: prefix_before_paren[where u = u])

lemma split_at_first:
  "c \<notin> set w \<Longrightarrow> takeWhile (\<lambda>x. x \<noteq> c) (w @ c # r) = w"
  "c \<notin> set w \<Longrightarrow> dropWhile (\<lambda>x. x \<noteq> c) (w @ c # r) = c # r"
  by (induction w) auto

lemma not_sign_block_closed:
  assumes "CHR '')'' \<notin> set w" and "rest = [] \<or> hd rest \<noteq> CHR ''*''"
  shows "\<not> sign_block (CHR ''('' # w @ CHR '')'' # rest)"
proof
  assume "sign_block (CHR ''('' # w @ CHR '')'' # rest)"
  then obtain pm where pm: "pm = CHR ''+'' \<or> pm = CHR ''-''"
    and "prefix (pm # ''1.0)*'') (w @ CHR '')'' # rest)"
    by (auto simp: sign_block_def)
  then obtain z where z: "w @ CHR '')'' # rest = pm # ''1.0)*'' @ z"
    by (auto simp: prefix_def)
  have "dropWhile (\<lambda>c. c \<noteq> CHR '')'') (w @ CHR '')'' # rest) = CHR '')'' # rest"
    using assms(1) by (rule split_at_first)
  then have "rest = CHR ''*'' # z"
    unfolding z using pm by auto
  with assms(2) show False by auto
qed

lemma unsigned_parens_unwrap:
  assumes "CHR ''('' \<notin> set e" and "CHR ''('' \<notin> set w" and "CHR '')'' \<notin> set w"
    and "rest = [] \<or> hd rest \<noteq> CHR ''*''"
  shows "unsigned_parens (coeff @ e @ rest) < unsigned_parens (coeff @ CHR ''('' # w @ CHR '')'' # rest)"
proof (induction coeff)
  case Nil
  have "unsigned_parens (CHR ''('' # w @ CHR '')'' # rest) = 1 + unsigned_parens (w @ CHR '')'' # rest)"
    using not_sign_block_closed[OF assms(3,4)] by simp
  moreover have "unsigned_parens (w @ CHR '')'' # rest) = unsigned_parens rest"
    using unsigned_parens_none[of "w @ '')''" rest] assms(2) by simp
  moreover have "unsigned_parens (e @ rest) = unsigned_parens rest"
    using assms(1) by (rule unsigned_parens_none)
  ultimately show ?case by simp
next
  case (Cons c cs)
  show ?case
  proof (cases "c = CHR ''(''")
    case True
    have "sign_block (c # cs @ CHR ''('' # w @ CHR '')'' # rest) \<Longrightarrow> sign_block (c # cs @ e @ rest)"
      unfolding True by (rule sign_block_before_paren)
    then show ?thesis using Cons by auto
  next
    case False
    then show ?thesis using Cons by simp
  qed
qed

lemma find_char_None: "find_char c s = None \<longleftrightarrow> c \<notin> set s"
  by (induction s) auto

lemma find_char_Some:
  "find_char c s = Some k \<Longrightarrow> k < length s \<and> s ! k = c \<and> c \<notin> set (take k s)"
  by (induction s arbitrary: k) (auto split: if_splits)

lemma find_char_append:
  "c \<notin> set x \<Longrightarrow> find_char c (x @ c # y) = Some (length x)"
  by (induction x) auto

lemma find_last_of_Some:
  assumes "find_last_of c s = Some p"
  shows "p < length s \<and> s ! p = c \<and> c \<notin> set (drop (p + 1) s)"
proof -
  from assms obtain k where k: "find_char c (rev s) = Some k" and p: "p = length s - 1 - k"
    by (auto simp: find_last_of_def)
  from find_char_Some[OF k] have kl: "k < length s" and kc: "rev s ! k = c"
    and kn: "c \<notin> set (take k (rev s))" by auto
  have "s ! p = c" using kl kc p by (simp add: rev_nth)
  moreover have "drop (p + 1) s = rev (take k (rev s))"
    using kl p by (simp add: take_rev Suc_diff_Suc)
  ultimately show ?thesis using kl kn p by auto
qed

lemma find_last_of_append:
  "c \<notin> set y \<Longrightarrow> find_last_of c (x @ c # y) = Some (length x)"
  using find_char_append[of c "rev y" "rev x"] by (simp add: find_last_of_def)

lemma UnwrapOpExpresion_shape:
  assumes "length (UnwrapOpExpresion x) = 2"
  shows "\<exists>coeff w1 pm w2.
     x = coeff @ CHR ''('' # w1 @ pm # w2 @ '')'' \<and>
     UnwrapOpExpresion x = [coeff @ w1, CHR ''('' # pm # ''1.0)*'' @ coeff @ w2] \<and>
     CHR ''('' \<notin> set (w1 @ pm # w2) \<and> CHR '')'' \<notin> set (w1 @ pm # w2) \<and>
     (pm = CHR ''+'' \<or> pm = CHR ''-'')"
proof -
  from assms have ne: "x \<noteq> []" and la: "last x = CHR '')''"
    by (auto simp: UnwrapOpExpresion_def split: if_splits)
  from assms ne la obtain pos where pos: "find_last_of CHR ''('' x = Some pos"
    by (auto simp: UnwrapOpExpresion_def split: option.splits)
  define w where "w = butlast (drop (Suc pos) x)"
  from find_last_of_Some[OF pos] have pl: "pos < length x" and px: "x ! pos = CHR ''(''"
    by auto
  have "pos \<noteq> length x - 1"
    using px la ne by (auto simp: last_conv_nth)
  then have dne: "drop (Suc pos) x \<noteq> []" using pl by simp
  then have "last (drop (Suc pos) x) = CHR '')''" using la by simp
  then have dw: "drop (Suc pos) x = w @ '')''"
    using dne append_butlast_last_id[OF dne] by (simp add: w_def)
  have xs: "x = take pos x @ CHR ''('' # w @ '')''"
    using id_take_nth_drop[OF pl] px dw by simp
  from assms ne la pos have wn: "CHR ''('' \<notin> set w" "CHR '')'' \<notin> set w"
    by (auto simp: UnwrapOpExpresion_def Let_def w_def find_char_None
        split: option.splits if_splits)
  define pmPos where "pmPos = (if find_char CHR ''+'' w = None then find_char CHR ''-'' w
                                 else find_char CHR ''+'' w)"
  from assms ne la pos wn obtain p where p: "pmPos = Some p"
    by (auto simp: UnwrapOpExpresion_def Let_def w_def[symmetric] find_char_None
        pmPos_def split: option.splits if_splits)
  then have pw: "p < length w" and pm: "w ! p = CHR ''+'' \<or> w ! p = CHR ''-''"
    by (auto simp: pmPos_def dest: find_char_Some split: if_splits)
  have ws: "w = take p w @ w ! p # drop (Suc p) w"
    using id_take_nth_drop[OF pw] by simp
  have res: "UnwrapOpExpresion x =
      [take pos x @ take p w, CHR ''('' # w ! p # ''1.0)*'' @ take pos x @ drop (Suc p) w]"
    using ne la pos wn p
    by (auto simp: UnwrapOpExpresion_def Let_def w_def[symmetric] find_char_None
        pmPos_def split: if_splits)
  have "x = take pos x @ CHR ''('' # take p w @ w ! p # drop (Suc p) w @ '')''"
    using xs ws by (metis append.assoc append_Cons)
  moreover have "CHR ''('' \<notin> set (take p w @ w ! p # drop (Suc p) w)"
    "CHR '')'' \<notin> set (take p w @ w ! p # drop (Suc p) w)"
    using wn ws by metis+
  ultimately show ?thesis using res pm by blast
qed

lemma removeWhiteSpaces_idem: "\<forall>c\<in>set y. \<not> isspace c \<Longrightarrow> removeWhiteSpaces y = y"
  by (simp add: removeWhiteSpaces_def)

lemma removeWhiteSpaces_no_space: "c \<in> set (removeWhiteSpaces s) \<Longrightarrow> \<not> isspace c"
  by (simp add: removeWhiteSpaces_def)

lemma sign_chars_no_space: "\<not> isspace CHR ''+''" "\<not> isspace CHR ''-''" "\<not> isspace CHR ''(''"
  "\<not> isspace CHR '')''" "\<not> isspace CHR ''1''" "\<not> isspace CHR ''.''" "\<not> isspace CHR ''0''"
  "\<not> isspace CHR ''*''"
  by (simp_all add: isspace_def)

lemma find_str_Some:
  "find_str pat s = Some k \<Longrightarrow> k \<le> length s \<and> prefix pat (drop k s)"
  by (induction s arbitrary: k) (auto split: if_splits)

text \<open>The two strings of a split, followed by \<open>rest\<close>, are smaller in the measure.\<close>

lemma unwrap_decreases:
  assumes two: "length (UnwrapOpExpresion x) = 2"
    and rest: "rest = [] \<or> hd rest \<noteq> CHR ''*''"
    and ws: "\<forall>c\<in>set (x @ rest). \<not> isspace c"
  shows "unsigned_parens (removeWhiteSpaces (UnwrapOpExpresion x ! 0 @ rest))
           < unsigned_parens (x @ rest)"
    and "unsigned_parens (removeWhiteSpaces (UnwrapOpExpresion x ! Suc 0 @ rest))
           < unsigned_parens (x @ rest)"
proof -
  from UnwrapOpExpresion_shape[OF two] obtain coeff w1 pm w2 where
    x: "x = coeff @ CHR ''('' # w1 @ pm # w2 @ '')''"
    and u: "UnwrapOpExpresion x = [coeff @ w1, CHR ''('' # pm # ''1.0)*'' @ coeff @ w2]"
    and no: "CHR ''('' \<notin> set (w1 @ pm # w2)" and nc: "CHR '')'' \<notin> set (w1 @ pm # w2)"
    and pm: "pm = CHR ''+'' \<or> pm = CHR ''-''"
    by blast
  have xr: "x @ rest = coeff @ CHR ''('' # (w1 @ pm # w2) @ CHR '')'' # rest"
    by (simp add: x)
  have s0: "removeWhiteSpaces (coeff @ w1 @ rest) = coeff @ w1 @ rest"
    using ws by (intro removeWhiteSpaces_idem) (auto simp: x)
  have s1: "removeWhiteSpaces (CHR ''('' # pm # ''1.0)*'' @ coeff @ w2 @ rest)
              = CHR ''('' # pm # ''1.0)*'' @ coeff @ w2 @ rest"
    using ws pm by (intro removeWhiteSpaces_idem) (auto simp: x sign_chars_no_space)
  have "unsigned_parens (coeff @ w1 @ rest) < unsigned_parens (x @ rest)"
    unfolding xr using no nc rest by (intro unsigned_parens_unwrap) auto
  then show "unsigned_parens (removeWhiteSpaces (UnwrapOpExpresion x ! 0 @ rest))
           < unsigned_parens (x @ rest)"
    by (simp add: u s0)
  have "removeWhiteSpaces (UnwrapOpExpresion x ! Suc 0 @ rest)
          = CHR ''('' # pm # ''1.0)*'' @ coeff @ w2 @ rest"
    using s1 by (simp add: u)
  then have "unsigned_parens (removeWhiteSpaces (UnwrapOpExpresion x ! Suc 0 @ rest))
          = unsigned_parens (CHR ''('' # pm # ''1.0)*'' @ coeff @ w2 @ rest)"
    by (rule arg_cong)
  also have "\<dots> = unsigned_parens (coeff @ w2 @ rest)"
    by (rule unsigned_parens_sign[OF pm])
  also have "\<dots> < unsigned_parens (x @ rest)"
    unfolding xr using no nc rest by (intro unsigned_parens_unwrap) auto
  finally show "unsigned_parens (removeWhiteSpaces (UnwrapOpExpresion x ! Suc 0 @ rest))
           < unsigned_parens (x @ rest)" .
qed

subsection \<open>The fromString functions\<close>

text \<open>
  \<open>HamiltonianTimeDependentTerm::fromString\<close>. \<open>back()\<close> of an empty string is
  undefined behaviour.
\<close>

definition valid_channel :: "string \<Rightarrow> bool" where
  "valid_channel channelName =
     (\<not> (length channelName < 2 \<or>
         (hd channelName \<noteq> CHR ''D'' \<and> hd channelName \<noteq> CHR ''U'') \<or>
         \<not> isNumberString (tl channelName)))"

function TimeDependent_fromString :: "'op services \<Rightarrow> string \<Rightarrow> VarsMap \<Rightarrow> 'op parsed" where
  "TimeDependent_fromString sv in_string in_vars =
     (let exprStr = removeWhiteSpaces in_string
      in case find_str ''||'' exprStr of
           None \<Rightarrow> Inr None
         | Some separatorPos \<Rightarrow>
             let channelName = toUpperCase (drop (separatorPos + 2) exprStr)
             in if \<not> valid_channel channelName then Inr None
                else
                  let operatorExpression = take separatorPos exprStr
                  in if operatorExpression = [] then Inl UndefinedBehaviour
                     else if last operatorExpression = CHR '')'' then
                       (let splitExprs = UnwrapOpExpresion operatorExpression
                        in if length splitExprs \<noteq> 2 then Inr None
                           else sum_of_two
                                  (TimeDependent_fromString sv
                                     (splitExprs ! 0 @ drop separatorPos exprStr) in_vars)
                                  (TimeDependent_fromString sv
                                     (splitExprs ! 1 @ drop separatorPos exprStr) in_vars))
                     else product_term sv (TimeDependentTerm channelName)
                            operatorExpression in_vars)"
  by pat_completeness auto
termination
proof (relation "measure (\<lambda>(sv, in_string, in_vars). unsigned_parens (removeWhiteSpaces in_string))",
    goal_cases)
  case 1
  show ?case by simp
next
  case (2 sv in_string in_vars exprStr sep channelName opExpr splitExprs)
  then have sep: "find_str ''||'' (removeWhiteSpaces in_string) = Some sep"
    and two: "length (UnwrapOpExpresion (take sep (removeWhiteSpaces in_string))) = 2"
    by auto
  let ?e = "removeWhiteSpaces in_string"
  from find_str_Some[OF sep] have "prefix ''||'' (drop sep ?e)" by simp
  then have rest: "drop sep ?e = [] \<or> hd (drop sep ?e) \<noteq> CHR ''*''"
    by (auto simp: prefix_def)
  have ws: "\<forall>c\<in>set (take sep ?e @ drop sep ?e). \<not> isspace c"
    by (simp add: removeWhiteSpaces_no_space)
  from unwrap_decreases(1)[OF two rest ws] 2 show ?case by simp
next
  case (3 sv in_string in_vars exprStr sep channelName opExpr splitExprs)
  then have sep: "find_str ''||'' (removeWhiteSpaces in_string) = Some sep"
    and two: "length (UnwrapOpExpresion (take sep (removeWhiteSpaces in_string))) = 2"
    by auto
  let ?e = "removeWhiteSpaces in_string"
  from find_str_Some[OF sep] have "prefix ''||'' (drop sep ?e)" by simp
  then have rest: "drop sep ?e = [] \<or> hd (drop sep ?e) \<noteq> CHR ''*''"
    by (auto simp: prefix_def)
  have ws: "\<forall>c\<in>set (take sep ?e @ drop sep ?e). \<not> isspace c"
    by (simp add: removeWhiteSpaces_no_space)
  from unwrap_decreases(2)[OF two rest ws] 3 show ?case by simp
qed

text \<open>\<open>HamiltonianTimeIndependentTerm::fromString\<close>.\<close>

function TimeIndependent_fromString :: "'op services \<Rightarrow> string \<Rightarrow> VarsMap \<Rightarrow> 'op parsed" where
  "TimeIndependent_fromString sv in_string in_vars =
     (let exprStr = removeWhiteSpaces in_string
      in if find_str ''||'' exprStr \<noteq> None then Inr None
         else if exprStr = [] then Inl UndefinedBehaviour
         else if last exprStr = CHR '')'' then
           (let splitExprs = UnwrapOpExpresion exprStr
            in if length splitExprs \<noteq> 2 then Inr None
               else sum_of_two
                      (TimeIndependent_fromString sv (splitExprs ! 0) in_vars)
                      (TimeIndependent_fromString sv (splitExprs ! 1) in_vars))
         else product_term sv TimeIndependentTerm exprStr in_vars)"
  by pat_completeness auto
termination
proof (relation "measure (\<lambda>(sv, in_string, in_vars). unsigned_parens (removeWhiteSpaces in_string))",
    goal_cases)
  case 1
  show ?case by simp
next
  case (2 sv in_string in_vars exprStr splitExprs)
  then have two: "length (UnwrapOpExpresion (removeWhiteSpaces in_string)) = 2"
    by auto
  have ws: "\<forall>c\<in>set (removeWhiteSpaces in_string @ []). \<not> isspace c"
    by (simp add: removeWhiteSpaces_no_space)
  from unwrap_decreases(1)[OF two _ ws, of ] 2 show ?case by simp
next
  case (3 sv in_string in_vars exprStr splitExprs)
  then have two: "length (UnwrapOpExpresion (removeWhiteSpaces in_string)) = 2"
    by auto
  have ws: "\<forall>c\<in>set (removeWhiteSpaces in_string @ []). \<not> isspace c"
    by (simp add: removeWhiteSpaces_no_space)
  from unwrap_decreases(2)[OF two _ ws] 3 show ?case by simp
qed

subsection \<open>The loop template of a sum term\<close>

text \<open>
  The matches of the regular expression \<open>(\{.*?\})\<close>, left to right: from an opening
  brace to the first closing brace after it. The string searched has no white space, so
  the dot matches every character of it.
\<close>

function regex_braces :: "string \<Rightarrow> string list" where
  "regex_braces s =
     (case dropWhile (\<lambda>c. c \<noteq> CHR ''{'') s of
        [] \<Rightarrow> []
      | b # rest \<Rightarrow>
          if CHR ''}'' \<in> set rest
          then (b # takeWhile (\<lambda>c. c \<noteq> CHR ''}'') rest @ ''}'')
                 # regex_braces (tl (dropWhile (\<lambda>c. c \<noteq> CHR ''}'') rest))
          else [])"
  by pat_completeness auto
termination
proof (relation "measure length", goal_cases)
  case 1
  show ?case by simp
next
  case (2 s b rest)
  have "length (dropWhile (\<lambda>c. c \<noteq> CHR ''}'') rest) \<le> length rest"
    by (rule length_dropWhile_le)
  moreover have "length (b # rest) \<le> length s"
    using 2(1)[symmetric] length_dropWhile_le[of "\<lambda>c. c \<noteq> CHR ''{''" s] by simp
  ultimately show ?case by simp
qed

text \<open>
  The value of one template: the loop value for the bare \<open>{i}\<close>; otherwise the
  expression between the braces is evaluated with the loop variable as the only variable
  and cast to \<open>int\<close>, and the value stays 0 when the evaluation fails.
\<close>

definition template_value :: "'op services \<Rightarrow> string \<Rightarrow> string \<Rightarrow> int \<Rightarrow> string \<Rightarrow> fault + int" where
  "template_value sv varFmt in_loopVarName in_val loopVarExpr =
     (if loopVarExpr = varFmt then Inr in_val
      else case TryEvaluateExpression sv (butlast (tl loopVarExpr))
                  [(in_loopVarName, real_of_int in_val)] of
             None \<Rightarrow> Inr 0
           | Some evalResult \<Rightarrow> int_of_double evalResult)"

fun template_values ::
  "'op services \<Rightarrow> string \<Rightarrow> string \<Rightarrow> int \<Rightarrow> string list \<Rightarrow> fault + (string \<times> int) list" where
  "template_values sv varFmt name val [] = Inr []"
| "template_values sv varFmt name val (k # ks) =
     (case template_value sv varFmt name val k of
        Inl e \<Rightarrow> Inl e
      | Inr v \<Rightarrow>
          (case template_values sv varFmt name val ks of
             Inl e \<Rightarrow> Inl e
           | Inr kvs \<Rightarrow> Inr ((k, v) # kvs)))"

text \<open>
  \<open>replaceTemplateWithValue\<close>: every occurrence, left to right, the search going on
  behind the text put in. Every template has its two braces, so it is never empty.
\<close>

function replaceTemplateWithValue :: "string \<Rightarrow> string \<Rightarrow> string \<Rightarrow> string" where
  "replaceTemplateWithValue in_template replaceStr result =
     (if in_template = [] then result
      else case find_str in_template result of
             None \<Rightarrow> result
           | Some pos \<Rightarrow>
               take pos result @ replaceStr @
               replaceTemplateWithValue in_template replaceStr
                 (drop (pos + length in_template) result))"
  by pat_completeness auto
termination
proof (relation "measure (\<lambda>(t, r, s). length s)", goal_cases)
  case 1
  show ?case by simp
next
  case (2 in_template replaceStr result pos)
  from find_str_Some[OF 2(2)] have "prefix in_template (drop pos result)" by simp
  then have "length in_template \<le> length result - pos"
    by (auto dest: prefix_length_le)
  with 2(1) show ?case by (cases in_template) auto
qed

definition resolveLoopTemplate ::
  "'op services \<Rightarrow> string \<Rightarrow> string \<Rightarrow> string \<Rightarrow> int \<Rightarrow> fault + string" where
  "resolveLoopTemplate sv varFmt in_string in_loopVarName in_val =
     (let loopVarExprs = map_order sv (remdups (regex_braces in_string))
      in case template_values sv varFmt in_loopVarName in_val loopVarExprs of
           Inl e \<Rightarrow> Inl e
         | Inr kvs \<Rightarrow>
             Inr (foldl (\<lambda>result (k, v). replaceTemplateWithValue k (to_string v) result)
                    in_string kvs))"

subsection \<open>HamiltonianSumTerm::fromString\<close>

definition GetNextCommaSeparatedSubString :: "string \<Rightarrow> string \<times> string" where
  "GetNextCommaSeparatedSubString io_string =
     (case find_char CHR '','' io_string of
        None \<Rightarrow> ([], io_string)
      | Some commaPos \<Rightarrow> (take commaPos io_string, drop (commaPos + 1) io_string))"

definition parseLoopExpression ::
  "'op services \<Rightarrow> bool \<Rightarrow> string \<Rightarrow> VarsMap \<Rightarrow> 'op parsed" where
  "parseLoopExpression sv isTimeDependent in_exprStr in_vars =
     (if isTimeDependent then TimeDependent_fromString sv in_exprStr in_vars
      else TimeIndependent_fromString sv in_exprStr in_vars)"

text \<open>
  The loop \<open>for (int i = startLoopVal; i <= endLoopVal; ++i)\<close>; \<open>body i\<close> resolves
  the template and parses. The assertion is active; \<open>++i\<close> at \<open>INT_MAX\<close> is undefined.
\<close>

function sum_loop ::
  "(nat \<Rightarrow> 'op parsed) \<Rightarrow> nat \<Rightarrow> nat \<Rightarrow> 'op HamiltonianTerm list
     \<Rightarrow> fault + 'op HamiltonianTerm list" where
  "sum_loop body i endLoopVal loopOps =
     (if i \<le> endLoopVal then
        (case body i of
           Inl e \<Rightarrow> Inl e
         | Inr None \<Rightarrow> Inl AssertionFailed
         | Inr (Some t) \<Rightarrow>
             if i = INT_MAX then Inl UndefinedBehaviour
             else sum_loop body (i + 1) endLoopVal (loopOps @ [t]))
      else Inr loopOps)"
  by pat_completeness auto
termination
  by (relation "measure (\<lambda>(body, i, endLoopVal, loopOps). Suc endLoopVal - i)") auto

definition loop_body ::
  "'op services \<Rightarrow> bool \<Rightarrow> string \<Rightarrow> string \<Rightarrow> string \<Rightarrow> VarsMap \<Rightarrow> nat \<Rightarrow> 'op parsed" where
  "loop_body sv isTimeDependent varFmt loopExpression loopVarName in_vars i =
     (case resolveLoopTemplate sv varFmt loopExpression loopVarName (int i) of
        Inl e \<Rightarrow> Inl e
      | Inr resolvedExpression \<Rightarrow>
          parseLoopExpression sv isTimeDependent resolvedExpression in_vars)"

text \<open>
  \<open>HamiltonianSumTerm::fromString\<close> in three steps: the prefix and the closing bracket
  are checked and removed; the loop variable, the two bounds and the loop expression are
  split off at the first three commas; the loop is checked and unrolled.
\<close>

definition split_sum_header :: "string \<Rightarrow> string \<times> string \<times> string \<times> string" where
  "split_sum_header exprStr =
     (let (loopVarName, exprStr) = GetNextCommaSeparatedSubString exprStr;
          (startValStr, exprStr) = GetNextCommaSeparatedSubString exprStr;
          (endValStr, exprStr) = GetNextCommaSeparatedSubString exprStr
      in (loopVarName, startValStr, endValStr, exprStr))"

definition unroll_sum ::
  "'op services \<Rightarrow> string \<Rightarrow> string \<Rightarrow> string \<Rightarrow> string \<Rightarrow> VarsMap \<Rightarrow> 'op parsed" where
  "unroll_sum sv loopVarName startValStr endValStr loopExpression in_vars =
     (let varFmt = ''{'' @ loopVarName @ ''}''
      in if loopVarName = [] \<or> startValStr = [] \<or> endValStr = [] \<or> loopExpression = [] \<or>
            \<not> isNumberString startValStr \<or> \<not> isNumberString endValStr \<or>
            find_str varFmt loopExpression = None
         then Inr None
         else
           case stoi startValStr of
             Inl e \<Rightarrow> Inl e
           | Inr startLoopVal \<Rightarrow>
           (case stoi endValStr of
             Inl e \<Rightarrow> Inl e
           | Inr endLoopVal \<Rightarrow>
              if startLoopVal > endLoopVal then Inr None
              else
                case resolveLoopTemplate sv varFmt loopExpression loopVarName
                       (int startLoopVal) of
                  Inl e \<Rightarrow> Inl e
                | Inr resolvedExpression \<Rightarrow>
                (case TimeIndependent_fromString sv resolvedExpression in_vars of
                  Inl e \<Rightarrow> Inl e
                | Inr tryTimeIndependent \<Rightarrow>
                (case TimeDependent_fromString sv resolvedExpression in_vars of
                  Inl e \<Rightarrow> Inl e
                | Inr tryTimeDependent \<Rightarrow>
                   if tryTimeIndependent = None \<and> tryTimeDependent = None then Inr None
                   else
                     let isTimeDependent = (tryTimeDependent \<noteq> None)
                     in case sum_loop
                               (loop_body sv isTimeDependent varFmt loopExpression
                                  loopVarName in_vars)
                               startLoopVal endLoopVal [] of
                          Inl e \<Rightarrow> Inl e
                        | Inr loopOps \<Rightarrow> Inr (Some (SumTerm loopOps))))))"

definition Sum_fromString :: "'op services \<Rightarrow> string \<Rightarrow> VarsMap \<Rightarrow> 'op parsed" where
  "Sum_fromString sv in_string in_vars =
     (let exprStr = removeWhiteSpaces in_string
      in if \<not> prefix ''_SUM['' exprStr \<or> last exprStr \<noteq> CHR '']'' then Inr None
         else
           let (loopVarName, startValStr, endValStr, loopExpression) =
                 split_sum_header (butlast (drop 5 exprStr))
           in unroll_sum sv loopVarName startValStr endValStr loopExpression in_vars)"

subsection \<open>HamiltonianParsingUtil::tryParse\<close>

definition tryParse :: "'op services \<Rightarrow> string \<Rightarrow> VarsMap \<Rightarrow> 'op parsed" where
  "tryParse sv in_expr in_vars =
     (case Sum_fromString sv in_expr in_vars of
        Inl e \<Rightarrow> Inl e
      | Inr (Some trySum) \<Rightarrow> Inr (Some trySum)
      | Inr None \<Rightarrow>
          (case TimeDependent_fromString sv in_expr in_vars of
             Inl e \<Rightarrow> Inl e
           | Inr (Some tryTimeDep) \<Rightarrow> Inr (Some tryTimeDep)
           | Inr None \<Rightarrow> TimeIndependent_fromString sv in_expr in_vars))"

text \<open>
  The overload on a JSON string. The decoding belongs to the JSON library: the input is
  the decoded document, an object with its \<open>h_str\<close> array and its \<open>vars\<close>, or something
  that is not an object. The consumer \<open>in_forEachTermFn\<close> acts on a state.
\<close>

datatype json_document = NotAnObject | HamiltonianObject "string list" VarsMap

fun parse_each ::
  "'op services \<Rightarrow> ('op HamiltonianTerm \<Rightarrow> 's \<Rightarrow> 's) \<Rightarrow> VarsMap \<Rightarrow> string list \<Rightarrow> 's
     \<Rightarrow> fault + (bool \<times> 's)" where
  "parse_each sv in_forEachTermFn vars [] st = Inr (True, st)"
| "parse_each sv in_forEachTermFn vars (hamStr # hamStrs) st =
     (case tryParse sv hamStr vars of
        Inl e \<Rightarrow> Inl e
      | Inr None \<Rightarrow> Inr (False, st)
      | Inr (Some parseResult) \<Rightarrow>
          parse_each sv in_forEachTermFn vars hamStrs (in_forEachTermFn parseResult st))"

definition tryParse_json ::
  "'op services \<Rightarrow> ('op HamiltonianTerm \<Rightarrow> 's \<Rightarrow> 's) \<Rightarrow> json_document \<Rightarrow> 's
     \<Rightarrow> fault + (bool \<times> 's)" where
  "tryParse_json sv in_forEachTermFn j st =
     (case j of
        NotAnObject \<Rightarrow> Inr (False, st)
      | HamiltonianObject hamStrArray vars \<Rightarrow> parse_each sv in_forEachTermFn vars hamStrArray st)"

subsection \<open>Stand-ins for the services\<close>

text \<open>
  Modelled from the spec: \<open>ConvertOperatorFromString\<close> is not in the sources; the spec
  names the single-site operators and interface_xacc_ir.h lists the names X, Y, Z, I, SP
  and SM.
\<close>

datatype Operator = OpX | OpY | OpZ | OpI | OpSP | OpSM

definition demo_ConvertOperatorFromString :: "string \<Rightarrow> Operator option" where
  "demo_ConvertOperatorFromString =
     map_of [(''X'', OpX), (''Y'', OpY), (''Z'', OpZ), (''I'', OpI), (''SP'', OpSP), (''SM'', OpSM)]"

text \<open>
  A stand-in for the expression engine that knows a few expressions and rejects every
  other string, the empty one included.
\<close>

definition demo_TryEvaluateExpression :: "string \<Rightarrow> VarsMap \<Rightarrow> real option" where
  "demo_TryEvaluateExpression e vars =
     (if e = ''i+1'' then map_option (\<lambda>v. v + 1) (map_of vars ''i'')
      else if e = ''w'' then map_of vars ''w''
      else if e = ''(+1.0)*w'' then map_of vars ''w''
      else if e = ''(-1.0)*w'' then map_option uminus (map_of vars ''w'')
      else map_of [(''1.0'', 1), (''0.5'', 1 / 2), (''(+1.0)*0.5'', 1 / 2),
                   (''(-1.0)*0.5'', - 1 / 2), (''2'', 2), (''1'', 1), (''0'', 0),
                   (''-1'', - 1)] e)"

definition demo_services :: "Operator services" where
  "demo_services = \<lparr>ConvertOperatorFromString = demo_ConvertOperatorFromString,
     TryEvaluateExpression = demo_TryEvaluateExpression, map_order = id\<rparr>"

subsection \<open>Malformed inputs\<close>

text \<open>
  The predicates of the failure cases. The expression of an input is its text without
  white space up to the first \<open>||\<close>, the channel the text after it.
\<close>

definition expression_part :: "string \<Rightarrow> string" where
  "expression_part e = (case find_str ''||'' e of None \<Rightarrow> e | Some sep \<Rightarrow> take sep e)"

definition channel_part :: "string \<Rightarrow> string option" where
  "channel_part e = (case find_str ''||'' e of None \<Rightarrow> None | Some sep \<Rightarrow> Some (drop (sep + 2) e))"

text \<open>A channel name: \<open>D\<close> or \<open>U\<close>, in either case, then at least one digit.\<close>

definition channel_name :: "string \<Rightarrow> bool" where
  "channel_name ch =
     (\<exists>d ds. toUpperCase ch = d # ds \<and> (d = CHR ''D'' \<or> d = CHR ''U'') \<and> ds \<noteq> [] \<and>
        (\<forall>c\<in>set ds. isdigit c))"

definition malformed_channel :: "string \<Rightarrow> bool" where
  "malformed_channel e = (\<exists>ch. channel_part e = Some ch \<and> \<not> channel_name ch)"

text \<open>
  The depth of open parentheses after a string, from a depth \<open>d\<close>; \<open>None\<close> when a
  closing parenthesis has no partner.
\<close>

fun paren_depth :: "string \<Rightarrow> nat \<Rightarrow> nat option" where
  "paren_depth [] d = Some d"
| "paren_depth (c # cs) d =
     (if c = CHR ''('' then paren_depth cs (Suc d)
      else if c = CHR '')'' then (case d of 0 \<Rightarrow> None | Suc d' \<Rightarrow> paren_depth cs d')
      else paren_depth cs d)"

definition balanced :: "string \<Rightarrow> bool" where
  "balanced s = (paren_depth s 0 = Some 0)"

text \<open>
  The final closing parenthesis closes a group: it is the partner of an opening one with no
  parenthesis between the two.
\<close>

definition closing_group :: "string \<Rightarrow> bool" where
  "closing_group x =
     (\<exists>c w. x = c @ CHR ''('' # w @ '')'' \<and> CHR ''('' \<notin> set w \<and> CHR '')'' \<notin> set w)"

text \<open>An operator at a site: letters that name an operator, then the digits of the site.\<close>

definition operator_at_site :: "'op services \<Rightarrow> string \<Rightarrow> bool" where
  "operator_at_site sv t =
     (\<exists>name idx. toUpperCase t = name @ idx \<and> name \<noteq> [] \<and> (\<forall>c\<in>set name. isalpha c) \<and>
        idx \<noteq> [] \<and> (\<forall>c\<in>set idx. isdigit c) \<and> ConvertOperatorFromString sv name \<noteq> None)"

definition ends_with_operator :: "'op services \<Rightarrow> string \<Rightarrow> bool" where
  "ends_with_operator sv x =
     (\<exists>k t. x = k @ CHR ''*'' # t \<and> CHR ''*'' \<notin> set t \<and> operator_at_site sv t)"

text \<open>
  An expression engine that takes neither the empty text nor a text whose parentheses are
  not balanced.
\<close>

definition engine_rejects_unbalanced :: "'op services \<Rightarrow> VarsMap \<Rightarrow> bool" where
  "engine_rejects_unbalanced sv vars =
     (\<forall>x. x = [] \<or> \<not> balanced x \<longrightarrow> TryEvaluateExpression sv x vars = None)"

text \<open>
  A parenthesised sum at the end of an expression, \<open>c(A+B)\<close> or \<open>c(A-B)\<close>: the group
  has no parenthesis inside and is split at its first plus sign, or at its first minus
  sign when it has no plus sign.
\<close>

definition group_split :: "string \<Rightarrow> string \<Rightarrow> string \<Rightarrow> char \<Rightarrow> string \<Rightarrow> bool" where
  "group_split x c A pm B =
     (x = c @ ''('' @ A @ pm # B @ '')'' \<and>
      CHR ''('' \<notin> set (A @ B) \<and> CHR '')'' \<notin> set (A @ B) \<and>
      ((pm = CHR ''+'' \<and> CHR ''+'' \<notin> set A) \<or>
       (pm = CHR ''-'' \<and> CHR ''+'' \<notin> set (A @ B) \<and> CHR ''-'' \<notin> set A)))"

text \<open>
  A product that is empty, or whose last factor is not an operator at a site.
\<close>

definition bad_product :: "'op services \<Rightarrow> string \<Rightarrow> bool" where
  "bad_product sv y = (y = [] \<or> (last y \<noteq> CHR '')'' \<and> \<not> ends_with_operator sv y))"

text \<open>
  The failure cases of a text \<open>e\<close> without white space, \<open>x\<close> being its expression: a
  malformed channel; an empty expression; a final closing parenthesis that closes no
  group; a product, or one of the two products a final group is distributed into, that
  does not end with an operator at a site, for an engine that rejects the empty text; and
  unbalanced parentheses, for an engine that rejects them.
\<close>

definition rejected_text :: "'op services \<Rightarrow> VarsMap \<Rightarrow> string \<Rightarrow> bool" where
  "rejected_text sv vars e =
     (let x = expression_part e
      in malformed_channel e \<or> x = [] \<or>
         (last x = CHR '')'' \<and> \<not> closing_group x) \<or>
         (TryEvaluateExpression sv [] vars = None \<and>
          (bad_product sv x \<or>
           (\<exists>c A pm B. group_split x c A pm B \<and>
              (bad_product sv (c @ A) \<or> bad_product sv (''('' @ [pm] @ ''1.0)*'' @ c @ B))))) \<or>
         (engine_rejects_unbalanced sv vars \<and> \<not> balanced x))"

subsection \<open>The body of a sum term and its templates\<close>

text \<open>
  The body of a sum term as a sequence of literal texts and brace templates
  \<open>{content}\<close>, followed by a last text. Every opening brace of the literal texts
  would open a template, so they have none; a content has no brace; the last text has no
  opening brace with a closing one behind it.
\<close>

datatype piece = Lit string | Tmpl string

fun render :: "piece list \<Rightarrow> string" where
  "render [] = []"
| "render (Lit s # ps) = s @ render ps"
| "render (Tmpl c # ps) = ''{'' @ c @ ''}'' @ render ps"

definition no_template :: "string \<Rightarrow> bool" where
  "no_template tl_text = (\<forall>x y. tl_text = x @ CHR ''{'' # y \<longrightarrow> CHR ''}'' \<notin> set y)"

definition templates_closed :: "piece list \<Rightarrow> string \<Rightarrow> bool" where
  "templates_closed ps tl_text =
     ((\<forall>s. Lit s \<in> set ps \<longrightarrow> CHR ''{'' \<notin> set s) \<and>
      (\<forall>c. Tmpl c \<in> set ps \<longrightarrow> CHR ''{'' \<notin> set c \<and> CHR ''}'' \<notin> set c) \<and>
      no_template tl_text)"

text \<open>
  The value of a template for the loop value \<open>k\<close>: \<open>k\<close> itself for the bare \<open>{v}\<close>,
  otherwise what the expression engine gives the content with \<open>v\<close> bound to \<open>k\<close>, cast
  to \<open>int\<close>; none when the engine gives none or the cast is not defined.
\<close>

definition loop_value :: "'op services \<Rightarrow> string \<Rightarrow> int \<Rightarrow> string \<Rightarrow> int option" where
  "loop_value sv v k c =
     (if c = v then Some k
      else case TryEvaluateExpression sv c [(v, real_of_int k)] of
             None \<Rightarrow> None
           | Some x \<Rightarrow> (case int_of_double x of Inl e \<Rightarrow> None | Inr n \<Rightarrow> Some n))"

text \<open>
  The body with a numeral in place of every template; \<open>substitute\<close> puts the value of
  each template there. An assignment \<open>agrees\<close> when it gives every template that has a
  value this value.
\<close>

fun fill :: "(string \<Rightarrow> int) \<Rightarrow> piece list \<Rightarrow> string" where
  "fill vals [] = []"
| "fill vals (Lit s # ps) = s @ fill vals ps"
| "fill vals (Tmpl c # ps) = to_string (vals c) @ fill vals ps"

definition substitute :: "'op services \<Rightarrow> string \<Rightarrow> int \<Rightarrow> piece list \<Rightarrow> string" where
  "substitute sv v k ps = fill (\<lambda>c. the (loop_value sv v k c)) ps"

definition agrees :: "'op services \<Rightarrow> string \<Rightarrow> int \<Rightarrow> piece list \<Rightarrow> (string \<Rightarrow> int) \<Rightarrow> bool" where
  "agrees sv v k ps vals =
     (\<forall>c n. Tmpl c \<in> set ps \<longrightarrow> loop_value sv v k c = Some n \<longrightarrow> vals c = n)"

text \<open>The iteration of the map visits every key once, in some order.\<close>

definition iterates_all :: "'op services \<Rightarrow> bool" where
  "iterates_all sv =
     (\<forall>xs. distinct xs \<longrightarrow> distinct (map_order sv xs) \<and> set (map_order sv xs) = set xs)"

text \<open>
  For the proofs: the contents of the templates, one template replaced by a text, and
  the templates of a set replaced by their numerals.
\<close>

fun contents :: "piece list \<Rightarrow> string list" where
  "contents [] = []"
| "contents (Lit s # ps) = contents ps"
| "contents (Tmpl c # ps) = c # contents ps"

fun put :: "string \<Rightarrow> string \<Rightarrow> piece \<Rightarrow> piece" where
  "put c r (Lit s) = Lit s"
| "put c r (Tmpl c') = (if c' = c then Lit r else Tmpl c')"

fun part :: "(string \<Rightarrow> int) \<Rightarrow> string set \<Rightarrow> piece \<Rightarrow> piece" where
  "part vals D (Lit s) = Lit s"
| "part vals D (Tmpl c) = (if c \<in> D then Lit (to_string (vals c)) else Tmpl c)"

section \<open>Example configurations\<close>

text \<open>Concrete globals and stand-ins for the kernel parameters, for evaluating the model.\<close>

definition liouville_example :: "Mat globals" where
  "liouville_example = \<lparr>lindblad_terms = 1, stiff_solver = 0, time_dep_list = [],
     total_levels = 2, print_dense_ham = 0, num_quantum_gates = 0, ts_monitor_set = False,
     stab_added = 0, matrix_assembled = 0, full_A = (\<lambda>_. 0), ham_A = (\<lambda>_. 0),
     ham_stiff_A = (\<lambda>_. 0)\<rparr>"

definition stabilized_example :: "Mat globals" where
  "stabilized_example = liouville_example\<lparr>full_A := stab_row (\<lambda>_. 0) 2 1, stab_added := 1,
                 matrix_assembled := 1\<rparr>"

definition kron_none :: "Mat kron" where
  "kron_none A c op extra_before extra_after = A"

definition destabilized_example :: "Mat globals" where
  "destabilized_example = stabilized_example\<lparr>print_dense_ham := 0, full_A := (\<lambda>_. 0)\<rparr>"

definition example_op :: operator where
  "example_op = \<lparr>n_before = 1, my_levels = 2, my_op_type = 0, position = 0\<rparr>"

definition schrodinger_example :: "call_log globals" where
  "schrodinger_example = \<lparr>lindblad_terms = 0, stiff_solver = 0,
     time_dep_list = [\<lparr>time_dep_func = (\<lambda>t. 2), ops = [example_op]\<rparr>],
     total_levels = 2, print_dense_ham = 0, num_quantum_gates = 0, ts_monitor_set = False,
     stab_added = 0, matrix_assembled = 0, full_A = (''full_A'', []), ham_A = (''ham_A'', []),
     ham_stiff_A = (''ham_stiff_A'', [])\<rparr>"

definition stiff_example :: "Mat globals" where
  "stiff_example = \<lparr>lindblad_terms = 1, stiff_solver = 1, time_dep_list = [],
     total_levels = 2, print_dense_ham = 0, num_quantum_gates = 0, ts_monitor_set = False,
     stab_added = 0, matrix_assembled = 0, full_A = (\<lambda>_. 0), ham_A = (\<lambda>_. 0),
     ham_stiff_A = (\<lambda>_. 0)\<rparr>"

section \<open>Properties of the solver\<close>

subsection \<open>Matrix updates\<close>

lemma MatSetValue_apply:
  "MatSetValue A r c v (r', c') = (if r' = r \<and> c' = c then A (r, c) + v else A (r', c'))"
  by (simp add: MatSetValue_def)

lemma stab_fold:
  "foldl (\<lambda>A i. MatSetValue A 0 (i * (D + 1)) v) A [0..<n] (r, c) =
     (if r = 0 \<and> (\<exists>i<n. c = i * (D + 1)) then A (r, c) + v else A (r, c))"
proof (induction n)
  case 0
  then show ?case by simp
next
  case (Suc n)
  have inj: "i * (D + 1) \<noteq> n * (D + 1)" if "i < n" for i
    using mult_less_mono1[OF that, of "D + 1"] by simp
  show ?case
    using Suc inj by (auto simp: MatSetValue_apply less_Suc_eq)
qed

lemma stab_row_apply:
  "stab_row A D v (r, c) =
     (if r = 0 \<and> (\<exists>i<D. c = i * (D + 1)) then A (r, c) + v else A (r, c))"
  unfolding stab_row_def by (rule stab_fold)

lemma add_zero_diag_id: "add_zero_diag A n = A"
  unfolding add_zero_diag_def
  by (induction n) (auto simp: MatSetValue_def)

lemma stab_row_inverse: "stab_row (stab_row A D v) D (- v) = A"
  by (rule ext) (auto simp: stab_row_apply split: prod.splits)

lemma stab_added_stages:
  "stab_added (print_dense g) = stab_added g"
  "stab_added (remove_stabilization g) = stab_added g"
  "stab_added (zero_diagonals g) = stab_added g"
  "stab_added (register_time_dep kron g) = stab_added g"
  by (simp_all add: print_dense_def remove_stabilization_def zero_diagonals_def
      register_time_dep_def set_solve_A_def Let_def)

lemma time_step_keeps_flag:
  "time_step kron opts slv g x tm dt st = Return r \<Longrightarrow> stab_added (ts_globals r) = stab_added g"
  by (cases "time_step_rejects g") (auto simp: time_step_def Let_def stab_added_stages)

lemma time_step_liouville_static:
  assumes "lindblad_terms g \<noteq> 0" and "stiff_solver g = 0" and "time_dep_list g = []"
  shows "\<exists>r. time_step kron opts slv g x tm dt st = Return r \<and>
     ts_globals r = g\<lparr>print_dense_ham := 0,
        full_A := (if stab_added g \<noteq> 0 then stab_row (full_A g) (total_levels g) (- 1)
                   else full_A g)\<rparr>"
  using assms
  by (simp add: time_step_def time_step_rejects_def print_dense_def remove_stabilization_def
      zero_diagonals_def register_time_dep_def Let_def set_solve_A_def solve_A_def
      add_zero_diag_id num_time_dep_def)

lemma steady_example:
  "\<exists>r0. steady_state id (\<lambda>k b x. x) liouville_example [0, 0, 0, 0] = Return r0 \<and>
     st_globals r0 = stabilized_example"
  by (simp add: steady_state_def liouville_example_def stabilized_example_def Let_def
      add_zero_diag_id)

lemma stabilized_fields:
  "lindblad_terms stabilized_example \<noteq> 0" "stiff_solver stabilized_example = 0"
  "time_dep_list stabilized_example = []" "stab_added stabilized_example = 1"
  "total_levels stabilized_example = 2"
  "full_A stabilized_example = stab_row (\<lambda>_. 0) 2 1"
  by (simp_all add: stabilized_example_def liouville_example_def)

lemma destabilized_fields:
  "lindblad_terms destabilized_example \<noteq> 0" "stiff_solver destabilized_example = 0"
  "time_dep_list destabilized_example = []" "stab_added destabilized_example = 1"
  "total_levels destabilized_example = 2"
  "full_A destabilized_example = (\<lambda>_. 0)"
  by (simp_all add: destabilized_example_def stabilized_example_def liouville_example_def)

lemma first_step:
  "\<exists>r1. time_step kron_none id (\<lambda>ts x. x) stabilized_example [1, 0, 0, 0] 1 1 10 = Return r1 \<and>
     ts_globals r1 = destabilized_example"
proof -
  have inv: "stab_row (stab_row (\<lambda>_. 0) 2 1) 2 (- 1) = (\<lambda>_. 0)"
    by (rule stab_row_inverse)
  show ?thesis
    using time_step_liouville_static[OF stabilized_fields(1-3),
        of kron_none id "\<lambda>ts x. x" "[1, 0, 0, 0]" 1 1 10]
    by (simp add: stabilized_fields inv destabilized_example_def)
qed

lemma second_step:
  "\<exists>r2. time_step kron_none id (\<lambda>ts x. x) destabilized_example [1, 0, 0, 0] 1 1 10 = Return r2 \<and>
     full_A (ts_globals r2) = stab_row (\<lambda>_. 0) 2 (- 1)"
  using time_step_liouville_static[OF destabilized_fields(1-3),
        of kron_none id "\<lambda>ts x. x" "[1, 0, 0, 0]" 1 1 10]
  by (auto simp add: destabilized_fields)

lemma diag_cols: "\<exists>i<2::nat. (0::nat) = i * (2 + 1)" "\<exists>i<2::nat. (3::nat) = i * (2 + 1)"
  by (rule exI[of _ 0], simp) (rule exI[of _ 1], simp)

lemma sum_list_scaled:
  "(\<Sum>z\<leftarrow>U. (cmod (z / complex_of_real n))\<^sup>2) = (\<Sum>z\<leftarrow>U. (cmod z)\<^sup>2) / n\<^sup>2"
  by (induction U) (simp_all add: norm_divide power_divide add_divide_distrib)

lemma VecNorm2_nonneg: "0 \<le> VecNorm2 U"
  unfolding VecNorm2_def by (auto intro!: sum_list_nonneg)

lemma VecNormalize_norm: "VecNorm2 U \<noteq> 0 \<Longrightarrow> VecNorm2 (VecNormalize U) = 1"
proof -
  assume nz: "VecNorm2 U \<noteq> 0"
  define n where "n = VecNorm2 U"
  have pos: "0 < n" using nz VecNorm2_nonneg[of U] by (simp add: n_def)
  have "VecNorm2 (VecNormalize U) = sqrt ((\<Sum>z\<leftarrow>U. (cmod z)\<^sup>2) / n\<^sup>2)"
    using nz by (simp add: VecNormalize_def VecNorm2_def[of "map _ _"] comp_def
        sum_list_scaled n_def[symmetric])
  also have "\<dots> = sqrt (\<Sum>z\<leftarrow>U. (cmod z)\<^sup>2) / n"
    using pos by (simp add: real_sqrt_divide)
  also have "\<dots> = 1"
    using pos by (simp add: n_def VecNorm2_def)
  finally show ?thesis .
qed

lemma lindblad_stages:
  "lindblad_terms (print_dense g) = lindblad_terms g"
  "lindblad_terms (remove_stabilization g) = lindblad_terms g"
  "lindblad_terms (zero_diagonals g) = lindblad_terms g"
  "lindblad_terms (register_time_dep kron g) = lindblad_terms g"
  by (simp_all add: print_dense_def remove_stabilization_def zero_diagonals_def
      register_time_dep_def set_solve_A_def Let_def)

lemma configure_ts_event:
  "lindblad_terms g \<noteq> 0 \<Longrightarrow>
   event (configure_ts g time_max dt steps_max) =
     Some \<lparr>nevents = 1, direction = 0, terminate = False, handler_fns = Normalize_Event\<rparr>"
  by (simp add: configure_ts_def Let_def TSSetEventHandler_def)

lemma RHS_liouville:
  "lindblad_terms g \<noteq> 0 \<Longrightarrow> RHS_time_dep_ham kron zero g t BB = spec_RHS kron g t"
  by (simp add: RHS_time_dep_ham_def spec_RHS_def RHS_term_def RHS_op_def spec_RHS_op_def
      MatCopy_def MatZeroEntries_def Let_def fun_eq_iff cong: foldl_cong)

lemma RHS_ignores_mode:
  "RHS_time_dep_ham kron zero (g\<lparr>lindblad_terms := l, ham_A := h\<rparr>) t BB =
   RHS_time_dep_ham kron zero g t BB"
  by (simp add: RHS_time_dep_ham_def)

lemma time_step_exit_iff:
  "time_step kron TSSetFromOptions TSSolve g x time_max dt steps_max = Exit \<longleftrightarrow>
   stiff_solver g \<noteq> 0 \<and> (lindblad_terms g \<noteq> 0 \<or> num_time_dep g \<noteq> 0)"
  by (auto simp: time_step_def time_step_rejects_def Let_def)

subsection \<open>The claims about the solver\<close>

text \<open>
  Claim C1. With time-dependent terms the callback rebuilds the matrix: zero it, copy the
  static matrix (\<open>full_A\<close> in Liouville mode, \<open>ham_A\<close> in Schroedinger mode), then
  for each term and operator add \<open>-i f(t) (I kron O)\<close> and \<open>+i f(t) (O kron I)\<close> in
  Liouville mode, \<open>-i f(t) O\<close> only in Schroedinger mode. In Liouville mode the callback
  does so (\<open>RHS_liouville\<close>). It never reads the mode (\<open>RHS_ignores_mode\<close>): with
  no Lindblad term, one term of coefficient 2 and one operator it copies \<open>full_A\<close> and
  adds the two Liouville contributions, where the claim has a copy of \<open>ham_A\<close> and one
  contribution with outer factors 1 and 1.
\<close>

theorem RHS_time_dep_ham_schrodinger_mode:
  "RHS_time_dep_ham kron_log (''zero'', []) schrodinger_example t (''AA'', []) =
     (''full_A'', [(- (2 * \<i>), example_op, 2, 1), (2 * \<i>, example_op, 1, 2)]) \<and>
   spec_RHS kron_log schrodinger_example t = (''ham_A'', [(- (2 * \<i>), example_op, 1, 1)]) \<and>
   RHS_time_dep_ham kron_log (''zero'', []) schrodinger_example t (''AA'', []) \<noteq>
     spec_RHS kron_log schrodinger_example t"
  by (simp add: RHS_time_dep_ham_def spec_RHS_def RHS_term_def RHS_op_def spec_RHS_op_def
      MatCopy_def MatZeroEntries_def Let_def schrodinger_example_def kron_log_def)

text \<open>
  Claim C2. The trigger function of the normalization event sets \<open>fvalue[0]\<close> to 0 for
  every time and every state vector and returns 0; the post-event action replaces the
  vector by its 2-normalization (of norm 1 unless the vector is zero) and sets it as the
  solution of the integrator; and every \<open>time_step\<close> with Lindblad terms that reaches
  the integrator has registered this event, with direction 0.
\<close>

theorem normalization_event:
  "(fvalue \<noteq> [] \<longrightarrow> fst (Normalize_EventFunction t U fvalue) ! 0 = 0) \<and>
   length (fst (Normalize_EventFunction t U fvalue)) = length fvalue \<and>
   snd (Normalize_EventFunction t U fvalue) = 0 \<and>
   Normalize_PostEventFunction ts t U = (ts\<lparr>solution := Some (VecNormalize U)\<rparr>, VecNormalize U) \<and>
   (VecNorm2 U \<noteq> 0 \<longrightarrow> VecNorm2 (VecNormalize U) = 1) \<and>
   (lindblad_terms g \<noteq> 0 \<and> time_step kron opts slv g x time_max dt steps_max = Return r \<longrightarrow>
      event (ts_ts r) =
        Some \<lparr>nevents = 1, direction = 0, terminate = False, handler_fns = Normalize_Event\<rparr>)"
proof -
  have reg: "event (ts_ts r) =
        Some \<lparr>nevents = 1, direction = 0, terminate = False, handler_fns = Normalize_Event\<rparr>"
    if "lindblad_terms g \<noteq> 0" "time_step kron opts slv g x time_max dt steps_max = Return r"
  proof -
    from that(2) have nr: "\<not> time_step_rejects g"
      by (auto simp: time_step_def)
    define g1 where "g1 = register_time_dep kron (zero_diagonals (remove_stabilization (print_dense g)))"
    have l: "lindblad_terms g1 \<noteq> 0"
      using that(1) by (simp add: g1_def lindblad_stages)
    from that(2) nr have "ts_ts r = configure_ts g1 time_max dt steps_max"
      by (auto simp: time_step_def Let_def g1_def)
    then show ?thesis using configure_ts_event[OF l] by simp
  qed
  show ?thesis
    using reg VecNormalize_norm[of U]
    by (simp add: Normalize_EventFunction_def Normalize_PostEventFunction_def Let_def)
qed

theorem normalization_event_witness:
  "fst (Normalize_EventFunction 0 [3, 4] [7]) ! 0 = 0 \<and>
   VecNorm2 [3, 4] = 5 \<and> VecNormalize [3, 4] = [3 / 5, 4 / 5] \<and>
   VecNorm2 (VecNormalize [3, 4]) = 1 \<and>
   (\<exists>r. time_step kron_none id (\<lambda>ts x. x) liouville_example [1, 0, 0, 0] 1 1 10 = Return r \<and>
      event (ts_ts r) =
        Some \<lparr>nevents = 1, direction = 0, terminate = False, handler_fns = Normalize_Event\<rparr>)"
proof -
  have s: "sqrt 25 = 5" using real_sqrt_abs[of 5] by simp
  have n: "VecNorm2 [3, 4] = 5" by (simp add: VecNorm2_def s)
  have v: "VecNormalize [3, 4] = [3 / 5, 4 / 5]" by (simp add: VecNormalize_def n)
  obtain r where r: "time_step kron_none id (\<lambda>ts x. x) liouville_example [1, 0, 0, 0] 1 1 10 = Return r"
    by (auto simp: time_step_def time_step_rejects_def liouville_example_def Let_def)
  have l: "lindblad_terms liouville_example \<noteq> 0" by (simp add: liouville_example_def)
  show ?thesis
    using normalization_event[of "[7]" 0 "[3, 4]" TSCreate liouville_example kron_none id
        "\<lambda>ts x. x" "[1, 0, 0, 0]" 1 1 10 r] r l n v
    by simp
qed

text \<open>
  Claim C5. After \<open>steady_state\<close> has added the stabilization row, the next
  \<open>time_step\<close> subtracts it, and the flag makes this happen exactly once however many
  \<open>time_step\<close> calls follow. The first \<open>time_step\<close> restores the entries, but
  \<open>time_step\<close> never clears \<open>stab_added\<close> (\<open>time_step_keeps_flag\<close>), so the
  second one subtracts again: with two levels and a zero matrix, the entries (0,0) and
  (0,3) are 1 after \<open>steady_state\<close>, 0 after the first \<open>time_step\<close> and -1 after
  the second.
\<close>

theorem time_step_twice_after_steady_state:
  "\<exists>r0 r1 r2.
     steady_state id (\<lambda>k b x. x) liouville_example [0, 0, 0, 0] = Return r0 \<and>
     full_A (st_globals r0) (0, 0) = 1 \<and> full_A (st_globals r0) (0, 3) = 1 \<and>
     stab_added (st_globals r0) = 1 \<and>
     time_step kron_none id (\<lambda>ts x. x) (st_globals r0) [1, 0, 0, 0] 1 1 10 = Return r1 \<and>
     full_A (ts_globals r1) (0, 0) = 0 \<and> full_A (ts_globals r1) (0, 3) = 0 \<and>
     stab_added (ts_globals r1) = 1 \<and>
     time_step kron_none id (\<lambda>ts x. x) (ts_globals r1) [1, 0, 0, 0] 1 1 10 = Return r2 \<and>
     full_A (ts_globals r2) (0, 0) = - 1 \<and> full_A (ts_globals r2) (0, 3) = - 1"
proof -
  obtain r0 where r0: "steady_state id (\<lambda>k b x. x) liouville_example [0, 0, 0, 0] = Return r0"
    and s0: "st_globals r0 = stabilized_example"
    using steady_example by blast
  obtain r1 where r1: "time_step kron_none id (\<lambda>ts x. x) stabilized_example [1, 0, 0, 0] 1 1 10 = Return r1"
    and s1: "ts_globals r1 = destabilized_example"
    using first_step by blast
  obtain r2 where r2: "time_step kron_none id (\<lambda>ts x. x) destabilized_example [1, 0, 0, 0] 1 1 10 = Return r2"
    and s2: "full_A (ts_globals r2) = stab_row (\<lambda>_. 0) 2 (- 1)"
    using second_step by blast
  have a: "full_A (st_globals r0) (0, 0) = 1" "full_A (st_globals r0) (0, 3) = 1"
    "stab_added (st_globals r0) = 1"
    using diag_cols by (simp_all add: s0 stabilized_fields stab_row_apply)
  have b: "full_A (ts_globals r1) (0, 0) = 0" "full_A (ts_globals r1) (0, 3) = 0"
    "stab_added (ts_globals r1) = 1"
    by (simp_all add: s1 destabilized_fields)
  have c: "full_A (ts_globals r2) (0, 0) = - 1" "full_A (ts_globals r2) (0, 3) = - 1"
    using diag_cols by (simp_all add: s2 stab_row_apply)
  from r1 have r1': "time_step kron_none id (\<lambda>ts x. x) (st_globals r0) [1, 0, 0, 0] 1 1 10 = Return r1"
    by (simp only: s0)
  from r2 have r2': "time_step kron_none id (\<lambda>ts x. x) (ts_globals r1) [1, 0, 0, 0] 1 1 10 = Return r2"
    by (simp only: s1)
  show ?thesis
    using r0 r1' r2' a b c by blast
qed

text \<open>
  A call of \<open>steady_state\<close> with Lindblad terms while the flag \<open>stab_added\<close> is clear
  adds 1 in row 0 at every column \<open>i*(D+1)\<close>, \<open>i < D\<close>, and changes no other entry; the
  right-hand side \<open>b\<close> has \<open>D*D\<close> entries, all zero but \<open>b[0] = 1\<close>; the solver is
  GMRES with restart 100, preconditioner additive Schwarz and relative tolerance
  \<open>1e-11\<close> before the command-line options are read, and it is run on \<open>full_A\<close>,
  \<open>b\<close> and the start vector.
\<close>

lemma steady_state_first_call:
  assumes "lindblad_terms g \<noteq> 0" and "stab_added g = 0" and "x \<noteq> []" and "0 < total_levels g"
  shows "\<exists>r. steady_state KSPSetFromOptions KSPSolve g x = Return r \<and>
     (\<forall>row col. full_A (st_globals r) (row, col) =
        full_A g (row, col) +
        (if row = 0 \<and> (\<exists>i<total_levels g. col = i * (total_levels g + 1)) then 1 else 0)) \<and>
     stab_added (st_globals r) = 1 \<and>
     length (st_b r) = total_levels g * total_levels g \<and>
     (\<forall>k<length (st_b r). st_b r ! k = (if k = 0 then 1 else 0)) \<and>
     solver (st_ksp r) = Some KSPGMRES \<and>
     gmres_restart (st_ksp r) = Some 100 \<and>
     pc (st_ksp r) = Some PCASM \<and>
     rtol (st_ksp r) = Some (1 / 10 ^ 11) \<and>
     ksp_operators (st_ksp r) = Some (full_A (st_globals r), full_A (st_globals r)) \<and>
     st_x r = KSPSolve (KSPSetFromOptions (st_ksp r)) (st_b r) (st_x0 r)"
  using assms
  by (simp add: steady_state_def Let_def stab_row_apply add_zero_diag_id VecSet_def
      VecSetValue_def KSPCreate_def default_rtol_def default_restart_def nth_list_update)

text \<open>With the flag set, \<open>steady_state\<close> solves on \<open>full_A\<close> as it finds it.\<close>

lemma steady_state_flag_set:
  assumes "lindblad_terms g \<noteq> 0" and "stab_added g \<noteq> 0"
  shows "\<exists>r. steady_state KSPSetFromOptions KSPSolve g x = Return r \<and>
     full_A (st_globals r) = full_A g \<and>
     ksp_operators (st_ksp r) = Some (full_A g, full_A g)"
  using assms
  by (simp add: steady_state_def Let_def add_zero_diag_id KSPCreate_def)

text \<open>
  Claim C6. \<open>steady_state\<close> adds the stabilization row, 1 in row 0 at every column
  \<open>i*(D+1)\<close>, and solves the stabilized system with right-hand side \<open>b[0] = 1\<close>. The
  row is added only while the flag \<open>stab_added\<close> is clear, and \<open>time_step\<close> subtracts
  the row without clearing the flag. So in the sequence \<open>steady_state\<close>, \<open>time_step\<close>,
  \<open>steady_state\<close>, with two levels and a zero matrix, the entries (0,0) and (0,3) are 1
  after the first call and 0 after the \<open>time_step\<close>, and the second \<open>steady_state\<close>
  adds nothing: it hands the solver the matrix without the row, here the zero matrix,
  with the right-hand side \<open>(1, 0, 0, 0)\<close>.
\<close>

theorem steady_state_after_time_step:
  "\<exists>r0 r1 r2.
     steady_state id (\<lambda>k b x. x) liouville_example [0, 0, 0, 0] = Return r0 \<and>
     full_A (st_globals r0) (0, 0) = 1 \<and> full_A (st_globals r0) (0, 3) = 1 \<and>
     time_step kron_none id (\<lambda>ts x. x) (st_globals r0) [1, 0, 0, 0] 1 1 10 = Return r1 \<and>
     full_A (ts_globals r1) (0, 0) = 0 \<and> full_A (ts_globals r1) (0, 3) = 0 \<and>
     stab_added (ts_globals r1) = 1 \<and>
     steady_state id (\<lambda>k b x. x) (ts_globals r1) [0, 0, 0, 0] = Return r2 \<and>
     full_A (st_globals r2) (0, 0) = 0 \<and> full_A (st_globals r2) (0, 3) = 0 \<and>
     ksp_operators (st_ksp r2) = Some (\<lambda>_. 0, \<lambda>_. 0) \<and>
     st_b r2 = [1, 0, 0, 0]"
proof -
  obtain r0 where r0: "steady_state id (\<lambda>k b x. x) liouville_example [0, 0, 0, 0] = Return r0"
    and s0: "st_globals r0 = stabilized_example"
    using steady_example by blast
  obtain r1 where r1: "time_step kron_none id (\<lambda>ts x. x) stabilized_example [1, 0, 0, 0] 1 1 10 = Return r1"
    and s1: "ts_globals r1 = destabilized_example"
    using first_step by blast
  obtain r2 where r2: "steady_state id (\<lambda>k b x. x) destabilized_example [0, 0, 0, 0] = Return r2"
    and A2: "full_A (st_globals r2) = full_A destabilized_example"
    and K2: "ksp_operators (st_ksp r2) = Some (full_A destabilized_example, full_A destabilized_example)"
    using steady_state_flag_set[OF destabilized_fields(1), of id "\<lambda>k b x. x" "[0, 0, 0, 0]"]
    by (auto simp: destabilized_fields)
  have b2: "st_b r2 = [1, 0, 0, 0]"
    using r2
    by (auto simp: steady_state_def Let_def destabilized_fields VecSet_def VecSetValue_def
        numeral_eq_Suc)
  have a: "full_A (st_globals r0) (0, 0) = 1" "full_A (st_globals r0) (0, 3) = 1"
    using diag_cols by (simp_all add: s0 stabilized_fields stab_row_apply)
  have b: "full_A (ts_globals r1) (0, 0) = 0" "full_A (ts_globals r1) (0, 3) = 0"
    "stab_added (ts_globals r1) = 1"
    by (simp_all add: s1 destabilized_fields)
  have c: "full_A (st_globals r2) (0, 0) = 0" "full_A (st_globals r2) (0, 3) = 0"
    "ksp_operators (st_ksp r2) = Some (\<lambda>_. 0, \<lambda>_. 0)"
    by (simp_all add: A2 K2 destabilized_fields)
  from r1 have r1': "time_step kron_none id (\<lambda>ts x. x) (st_globals r0) [1, 0, 0, 0] 1 1 10 = Return r1"
    by (simp only: s0)
  from r2 have r2': "steady_state id (\<lambda>k b x. x) (ts_globals r1) [0, 0, 0, 0] = Return r2"
    by (simp only: s1)
  show ?thesis
    using r0 r1' r2' a b c b2 by blast
qed

text \<open>
  Claim C9. \<open>time_step\<close> exits without integrating whenever the stiff solver is selected
  together with Lindblad terms, and whenever it is selected together with time-dependent
  terms.
\<close>

theorem time_step_rejects_stiff:
  "stiff_solver g \<noteq> 0 \<and> (lindblad_terms g \<noteq> 0 \<or> num_time_dep g \<noteq> 0)
   \<Longrightarrow> time_step kron TSSetFromOptions TSSolve g x time_max dt steps_max = Exit"
  by (auto simp: time_step_def time_step_rejects_def)

theorem time_step_rejects_stiff_witness:
  "time_step kron_none id (\<lambda>ts x. x) stiff_example [1, 0, 0, 0] 1 1 10 = Exit \<and>
   time_step kron_none id (\<lambda>ts x. x)
     (stiff_example\<lparr>lindblad_terms := 0,
        time_dep_list := [\<lparr>time_dep_func = (\<lambda>t. 2), ops = [example_op]\<rparr>]\<rparr>) [1, 0] 1 1 10 = Exit"
proof -
  have a: "stiff_solver stiff_example \<noteq> 0 \<and>
      (lindblad_terms stiff_example \<noteq> 0 \<or> num_time_dep stiff_example \<noteq> 0)"
    by (simp add: stiff_example_def)
  let ?g = "stiff_example\<lparr>lindblad_terms := 0,
        time_dep_list := [\<lparr>time_dep_func = (\<lambda>t. 2), ops = [example_op]\<rparr>]\<rparr>"
  have b: "stiff_solver ?g \<noteq> 0 \<and> (lindblad_terms ?g \<noteq> 0 \<or> num_time_dep ?g \<noteq> 0)"
    by (simp add: stiff_example_def num_time_dep_def)
  show ?thesis
    using time_step_rejects_stiff[OF a] time_step_rejects_stiff[OF b] by simp
qed

section \<open>Properties of the parser\<close>

subsection \<open>Evaluation on concrete strings\<close>

lemmas demo_eval = GetLastOperator_def find_last_of_def Let_def toUpperCase_def toupper_def
      isalpha_def demo_services_def demo_ConvertOperatorFromString_def isNumberString_def
      isdigit_def stoi_def dec_val_def INT_MAX_def removeWhiteSpaces_def isspace_def
      UnwrapOpExpresion_def product_term_def sum_of_two_def valid_channel_def
      demo_TryEvaluateExpression_def resolveLoopTemplate_def template_value_def
      int_of_double_def to_string_def GetNextCommaSeparatedSubString_def
      parseLoopExpression_def loop_body_def Sum_fromString_def split_sum_header_def
      unroll_sum_def tryParse_def tryParse_json_def

lemma demo_X0: "tryParse demo_services ''0.5*X0'' [] = Inr (Some (TimeIndependentTerm (1 / 2) [(OpX, 0)]))"
  by (simp add: demo_eval)

lemma demo_Y1: "tryParse demo_services ''0.5*Y1||D0'' [] = Inr (Some (TimeDependentTerm ''D0'' (1 / 2) [(OpY, 1)]))"
  by (simp add: demo_eval)

lemma demo_Q0: "tryParse demo_services ''0.5*Q0'' [] = Inr None"
  by (simp add: demo_eval)

lemma demo_rejects_empty: "TryEvaluateExpression demo_services [] vars = None"
  by (simp add: demo_services_def demo_TryEvaluateExpression_def)

subsection \<open>Strings and the header of a sum term\<close>

lemma GetNext_form:
  "CHR '','' \<notin> set v \<Longrightarrow> GetNextCommaSeparatedSubString (v @ CHR '','' # r) = (v, r)"
  by (simp add: GetNextCommaSeparatedSubString_def find_char_append)

lemma split_sum_header_form:
  assumes "CHR '','' \<notin> set v" "CHR '','' \<notin> set a" "CHR '','' \<notin> set b"
  shows "split_sum_header (v @ '','' @ a @ '','' @ b @ '','' @ body) = (v, a, b, body)"
  using assms by (simp add: split_sum_header_def GetNext_form)

lemma Sum_fromString_form:
  assumes "removeWhiteSpaces in_string = ''_SUM['' @ v @ '','' @ a @ '','' @ b @ '','' @ body @ '']''"
    and "CHR '','' \<notin> set v" "CHR '','' \<notin> set a" "CHR '','' \<notin> set b"
  shows "Sum_fromString sv in_string in_vars = unroll_sum sv v a b body in_vars"
proof -
  let ?e = "removeWhiteSpaces in_string"
  have p: "prefix ''_SUM['' ?e" "last ?e = CHR '']''"
    by (simp_all add: assms(1))
  have "butlast (drop 5 ?e) = butlast ((v @ '','' @ a @ '','' @ b @ '','' @ body) @ '']'')"
    by (simp add: assms(1))
  also have "\<dots> = v @ '','' @ a @ '','' @ b @ '','' @ body"
    by (rule butlast_snoc)
  finally have h: "split_sum_header (butlast (drop 5 ?e)) = (v, a, b, body)"
    using split_sum_header_form[OF assms(2-4)] by simp
  show ?thesis
    unfolding Sum_fromString_def Let_def using p h by simp
qed

lemma isNumberString_iff: "isNumberString x \<longleftrightarrow> (\<forall>c\<in>set x. isdigit c)"
  by (auto simp: isNumberString_def find_None_iff)

lemma find_if_not_Some:
  "find_if_not p s = Some k \<Longrightarrow> k < length s \<and> \<not> p (s ! k) \<and> (\<forall>c\<in>set (take k s). p c)"
  by (induction s arbitrary: k) (auto split: if_splits)

lemma find_if_not_None: "find_if_not p s = None \<longleftrightarrow> (\<forall>c\<in>set s. p c)"
  by (induction s) auto

lemma toupper_bracket: "toupper CHR '']'' = CHR '']''" "\<not> isdigit CHR '']''"
  by (simp_all add: toupper_def isdigit_def)

lemma last_drop_keep: "k < length s \<Longrightarrow> last (drop k s) = last s"
  by simp

text \<open>A string that ends with a closing bracket has no operator at its end.\<close>

lemma GetLastOperator_bracket:
  assumes "s \<noteq> []" and "last s = CHR '']''"
  shows "GetLastOperator sv s = Inr None"
proof (cases "find_last_of CHR ''*'' s")
  case None
  then show ?thesis by (simp add: GetLastOperator_def)
next
  case (Some pos)
  define opName where "opName = toUpperCase (drop (Suc pos) s)"
  show ?thesis
  proof (cases "find_if_not isalpha opName")
    case None
    then show ?thesis using Some by (simp add: GetLastOperator_def opName_def)
  next
    case k: (Some k)
    from find_if_not_Some[OF k] have kl: "k < length opName" by simp
    then have ne: "drop (Suc pos) s \<noteq> []" by (auto simp: opName_def toUpperCase_def)
    then have "last (drop (Suc pos) s) = CHR '']''" using assms by simp
    then have "last opName = CHR '']''"
      using ne by (simp add: opName_def toUpperCase_def last_map toupper_bracket)
    then have "last (drop k opName) = CHR '']''" using kl by simp
    moreover have "drop k opName \<noteq> []" using kl by simp
    ultimately have "\<not> isNumberString (drop k opName)"
      using last_in_set[of "drop k opName"] toupper_bracket(2)
      by (auto simp: isNumberString_iff)
    then show ?thesis
      using Some k by (simp add: GetLastOperator_def Let_def opName_def[symmetric] split: option.splits)
  qed
qed

lemma valid_channel_last: "valid_channel ch \<Longrightarrow> isdigit (last ch)"
proof -
  assume v: "valid_channel ch"
  then have "length ch \<ge> 2" and n: "isNumberString (tl ch)"
    by (auto simp: valid_channel_def)
  then have t: "tl ch \<noteq> []" by (cases ch) auto
  then have "last (tl ch) \<in> set (tl ch)" by simp
  moreover have "last ch = last (tl ch)" using t by (cases ch) auto
  ultimately show ?thesis using n by (auto simp: isNumberString_iff)
qed

lemma TimeDependent_bracket:
  assumes "last (removeWhiteSpaces s) = CHR '']''"
  shows "TimeDependent_fromString sv s vars = Inr None"
proof (cases "find_str ''||'' (removeWhiteSpaces s)")
  case None
  then show ?thesis by (subst TimeDependent_fromString.simps) simp
next
  case (Some sep)
  let ?e = "removeWhiteSpaces s"
  have "\<not> valid_channel (toUpperCase (drop (sep + 2) ?e))"
  proof
    assume v: "valid_channel (toUpperCase (drop (sep + 2) ?e))"
    then have ne: "drop (sep + 2) ?e \<noteq> []"
      by (auto simp: valid_channel_def toUpperCase_def)
    then have "last (toUpperCase (drop (sep + 2) ?e)) = CHR '']''"
      using assms by (simp add: toUpperCase_def last_map toupper_bracket)
    with valid_channel_last[OF v] toupper_bracket(2) show False by simp
  qed
  then show ?thesis using Some by (subst TimeDependent_fromString.simps) (simp add: Let_def)
qed

lemma parse_operators_stop:
  "GetLastOperator sv s = Inr None \<Longrightarrow> parse_operators sv s acc r = Inr (acc, r)"
  by (subst parse_operators.simps) simp

lemma TimeIndependent_bracket:
  assumes "removeWhiteSpaces s \<noteq> []" and "last (removeWhiteSpaces s) = CHR '']''"
    and "TryEvaluateExpression sv [] vars = None"
  shows "TimeIndependent_fromString sv s vars = Inr None"
  using assms GetLastOperator_bracket[OF assms(1,2), of sv]
  by (subst TimeIndependent_fromString.simps)
     (simp add: Let_def product_term_def parse_operators_stop)

subsection \<open>The JSON-level parse\<close>

lemma parse_each_passes:
  "list_all2 (\<lambda>h t. tryParse sv h vars = Inr (Some t)) pre ts \<Longrightarrow>
   parse_each sv f vars (pre @ tl_strs) st = parse_each sv f vars tl_strs (foldl (\<lambda>s t. f t s) st ts)"
  by (induction pre ts arbitrary: st rule: list_all2_induct) auto

text \<open>
  Claim C7, as the code has it. When an entry of \<open>h_str\<close> does not parse, the
  JSON-level parse returns failure at the first such entry: the entries before it have
  been handed to the per-term consumer, in order, and no entry at or after it is.
\<close>

theorem tryParse_json_first_failure:
  assumes "list_all2 (\<lambda>h t. tryParse sv h vars = Inr (Some t)) pre ts"
    and "tryParse sv bad vars = Inr None"
  shows "tryParse_json sv f (HamiltonianObject (pre @ bad # post) vars) st =
           Inr (False, foldl (\<lambda>s t. f t s) st ts)"
  using assms by (simp add: tryParse_json_def parse_each_passes)

theorem tryParse_json_first_failure_witness:
  "tryParse_json demo_services (\<lambda>t st. st @ [t])
     (HamiltonianObject [''0.5*X0'', ''0.5*Y1||D0'', ''0.5*Q0'', ''0.5*X0''] []) [] =
   Inr (False, [TimeIndependentTerm (1 / 2) [(OpX, 0)], TimeDependentTerm ''D0'' (1 / 2) [(OpY, 1)]])"
proof -
  have "list_all2 (\<lambda>h t. tryParse demo_services h [] = Inr (Some t)) [''0.5*X0'', ''0.5*Y1||D0'']
     [TimeIndependentTerm (1 / 2) [(OpX, 0)], TimeDependentTerm ''D0'' (1 / 2) [(OpY, 1)]]"
    using demo_X0 demo_Y1 by simp
  from tryParse_json_first_failure[OF this demo_Q0, of "\<lambda>t st. st @ [t]" "[''0.5*X0'']" "[]"]
  show ?thesis by simp
qed

text \<open>
  Claim C7 as stated says that no term of an input with an unparseable entry reaches the
  consumer. With a parseable entry before the unparseable one the parse fails and the
  consumer has received the first term.
\<close>

theorem tryParse_json_partial_counterexample:
  "tryParse_json demo_services (\<lambda>t st. st @ [t])
     (HamiltonianObject [''0.5*X0'', ''0.5*Q0''] []) [] =
   Inr (False, [TimeIndependentTerm (1 / 2) [(OpX, 0)]])"
  using demo_X0 demo_Q0 by (simp add: tryParse_json_def)

subsection \<open>Degenerate sums\<close>

text \<open>
  Claim C10. A \<open>_SUM[i,a,b,expr]\<close> whose start bound exceeds its end bound, or whose
  body does not contain the bare template \<open>{i}\<close>, yields no term:
  \<open>HamiltonianSumTerm::fromString\<close> returns null (when the body lacks the template, or
  the start bound fits an \<open>int\<close>; a larger one makes \<open>std::stoi\<close> throw), and the
  whole parse yields no term either when the expression engine rejects the empty string.
\<close>

theorem degenerate_sum_rejected:
  assumes "removeWhiteSpaces in_string = ''_SUM['' @ v @ '','' @ a @ '','' @ b @ '','' @ body @ '']''"
    and "CHR '','' \<notin> set v" "CHR '','' \<notin> set a" "CHR '','' \<notin> set b"
    and "find_str (''{'' @ v @ ''}'') body = None \<or> dec_val b < dec_val a"
  shows "(\<forall>t. Sum_fromString sv in_string in_vars \<noteq> Inr (Some t)) \<and>
         (find_str (''{'' @ v @ ''}'') body = None \<or> dec_val a \<le> INT_MAX
            \<longrightarrow> Sum_fromString sv in_string in_vars = Inr None) \<and>
         (TryEvaluateExpression sv [] in_vars = None
            \<longrightarrow> (\<forall>t. tryParse sv in_string in_vars \<noteq> Inr (Some t)))"
proof -
  have eq: "Sum_fromString sv in_string in_vars = unroll_sum sv v a b body in_vars"
    using assms(1-4) by (rule Sum_fromString_form)
  have none: "find_str (''{'' @ v @ ''}'') body = None \<or> dec_val a \<le> INT_MAX
      \<Longrightarrow> Sum_fromString sv in_string in_vars = Inr None"
    using assms(5) by (auto simp: eq unroll_sum_def stoi_def Let_def)
  have fault: "\<not> (find_str (''{'' @ v @ ''}'') body = None \<or> dec_val a \<le> INT_MAX)
      \<Longrightarrow> Sum_fromString sv in_string in_vars = Inr None \<or>
          Sum_fromString sv in_string in_vars = Inl OutOfRange"
    by (auto simp: eq unroll_sum_def stoi_def Let_def)
  have no_term: "Sum_fromString sv in_string in_vars \<noteq> Inr (Some t)" for t
    using none fault by (cases "find_str (''{'' @ v @ ''}'') body = None \<or> dec_val a \<le> INT_MAX") auto
  have ne: "removeWhiteSpaces in_string \<noteq> []" and la: "last (removeWhiteSpaces in_string) = CHR '']''"
    by (simp_all add: assms(1))
  have top: "tryParse sv in_string in_vars \<noteq> Inr (Some t)"
    if "TryEvaluateExpression sv [] in_vars = None" for t
    using no_term TimeDependent_bracket[OF la, of sv in_vars]
      TimeIndependent_bracket[OF ne la that]
    by (auto simp: tryParse_def split: sum.splits option.splits)
  show ?thesis using no_term none top by blast
qed

theorem degenerate_sum_rejected_witness:
  "Sum_fromString demo_services ''_SUM[i, 2, 1, 1.0*X{i}]'' [] = Inr None \<and>
   tryParse demo_services ''_SUM[i, 2, 1, 1.0*X{i}]'' [] = Inr None \<and>
   Sum_fromString demo_services ''_SUM[i,0,1,1.0*X0]'' [] = Inr None \<and>
   TimeIndependent_fromString demo_services ''1.0*X0'' [] =
     Inr (Some (TimeIndependentTerm 1 [(OpX, 0)])) \<and>
   Sum_fromString demo_services ''_SUM[i,99999999999,1,1.0*X{i}]'' [] = Inl OutOfRange"
proof -
  have r: "removeWhiteSpaces ''_SUM[i, 2, 1, 1.0*X{i}]'' =
      ''_SUM['' @ ''i'' @ '','' @ ''2'' @ '','' @ ''1'' @ '','' @ ''1.0*X{i}'' @ '']''"
    by (simp add: removeWhiteSpaces_def isspace_def)
  have c: "CHR '','' \<notin> set ''i''" "CHR '','' \<notin> set ''2''" "CHR '','' \<notin> set ''1''"
    by simp_all
  have d: "find_str (''{'' @ ''i'' @ ''}'') ''1.0*X{i}'' = None \<or> dec_val ''1'' < dec_val ''2''"
    by (simp add: dec_val_def)
  have i: "dec_val ''2'' \<le> INT_MAX" by (simp add: dec_val_def INT_MAX_def)
  have r2: "removeWhiteSpaces ''_SUM[i,0,1,1.0*X0]'' =
      ''_SUM['' @ ''i'' @ '','' @ ''0'' @ '','' @ ''1'' @ '','' @ ''1.0*X0'' @ '']''"
    by (simp add: removeWhiteSpaces_def isspace_def)
  have c2: "CHR '','' \<notin> set ''0''" by simp
  have d2: "find_str (''{'' @ ''i'' @ ''}'') ''1.0*X0'' = None \<or> dec_val ''1'' < dec_val ''0''"
    by simp
  note w = degenerate_sum_rejected[OF r c d, of demo_services "[]"]
  have s1: "Sum_fromString demo_services ''_SUM[i, 2, 1, 1.0*X{i}]'' [] = Inr None"
    using w i by simp
  have "\<forall>t. tryParse demo_services ''_SUM[i, 2, 1, 1.0*X{i}]'' [] \<noteq> Inr (Some t)"
    using w by (simp add: demo_rejects_empty)
  moreover have "tryParse demo_services ''_SUM[i, 2, 1, 1.0*X{i}]'' [] \<noteq> Inl e" for e
    using s1 TimeDependent_bracket[of "''_SUM[i, 2, 1, 1.0*X{i}]''" demo_services "[]"]
      TimeIndependent_bracket[of "''_SUM[i, 2, 1, 1.0*X{i}]''" demo_services "[]"]
      demo_rejects_empty
    by (simp add: tryParse_def r)
  ultimately have s2: "tryParse demo_services ''_SUM[i, 2, 1, 1.0*X{i}]'' [] = Inr None"
    by (cases "tryParse demo_services ''_SUM[i, 2, 1, 1.0*X{i}]'' []") auto
  have s3: "Sum_fromString demo_services ''_SUM[i,0,1,1.0*X0]'' [] = Inr None"
    using degenerate_sum_rejected[OF r2 c(1) c2 c(3) d2, of demo_services "[]"] d2 by simp
  have s4: "TimeIndependent_fromString demo_services ''1.0*X0'' [] =
      Inr (Some (TimeIndependentTerm 1 [(OpX, 0)]))"
    by (simp add: demo_eval)
  have s5: "Sum_fromString demo_services ''_SUM[i,99999999999,1,1.0*X{i}]'' [] = Inl OutOfRange"
    by (simp add: demo_eval)
  show ?thesis using s1 s2 s3 s4 s5 by blast
qed


subsection \<open>Distribution of a parenthesised sum\<close>


lemma find_str_no_bars: "CHR ''|'' \<notin> set x \<Longrightarrow> find_str ''||'' x = None"
  by (induction x) auto













subsection \<open>Unrolling of a sum term\<close>

lemma sum_loop_unrolls:
  assumes "\<forall>k. i \<le> k \<and> k \<le> e \<longrightarrow> (\<exists>t. body k = Inr (Some t))" and "e < INT_MAX"
  shows "\<exists>ts. sum_loop body i e acc = Inr (acc @ ts) \<and> length ts = Suc e - i \<and>
              (\<forall>j<length ts. body (i + j) = Inr (Some (ts ! j)))"
  using assms(1)
proof (induction "Suc e - i" arbitrary: i acc)
  case 0
  then have "e < i" by simp
  then show ?case by (subst sum_loop.simps) simp
next
  case (Suc n)
  then have le: "i \<le> e" by simp
  with Suc.prems obtain t where t: "body i = Inr (Some t)" by blast
  have ni: "i \<noteq> INT_MAX" using le assms(2) by simp
  have step: "sum_loop body i e acc = sum_loop body (i + 1) e (acc @ [t])"
    using le t ni by (subst sum_loop.simps) simp
  have "n = Suc e - (i + 1)" using Suc.hyps(2) by simp
  moreover have "\<forall>k. i + 1 \<le> k \<and> k \<le> e \<longrightarrow> (\<exists>t. body k = Inr (Some t))"
    using Suc.prems by simp
  ultimately obtain ts where ts: "sum_loop body (i + 1) e (acc @ [t]) = Inr ((acc @ [t]) @ ts)"
    "length ts = Suc e - (i + 1)" "\<forall>j<length ts. body (i + 1 + j) = Inr (Some (ts ! j))"
    using Suc.hyps(1)[of "i + 1" "acc @ [t]"] by blast
  have "\<forall>j<length (t # ts). body (i + j) = Inr (Some ((t # ts) ! j))"
  proof (intro allI impI)
    fix j assume "j < length (t # ts)"
    then show "body (i + j) = Inr (Some ((t # ts) ! j))"
      using t ts(3) by (cases j) auto
  qed
  moreover have "length (t # ts) = Suc e - i" using ts(2) le by simp
  moreover have "sum_loop body i e acc = Inr (acc @ t # ts)" using step ts(1) by simp
  ultimately show ?case by blast
qed

lemma either_null:
  "find_str ''||'' (removeWhiteSpaces r) \<noteq> None \<Longrightarrow> TimeIndependent_fromString sv r vars = Inr None"
  "find_str ''||'' (removeWhiteSpaces r) = None \<Longrightarrow> TimeDependent_fromString sv r vars = Inr None"
  by (subst TimeIndependent_fromString.simps, simp)
     (subst TimeDependent_fromString.simps, simp)

lemma demo_iterations:
  "loop_body demo_services False ''{i}'' ''1.0*X{i}*X{i+1}'' ''i'' [] 0 =
     Inr (Some (TimeIndependentTerm 1 [(OpX, 0), (OpX, 1)]))"
  "loop_body demo_services False ''{i}'' ''1.0*X{i}*X{i+1}'' ''i'' [] 1 =
     Inr (Some (TimeIndependentTerm 1 [(OpX, 1), (OpX, 2)]))"
  "resolveLoopTemplate demo_services ''{i}'' ''1.0*X{i}*X{i+1}'' ''i'' 0 = Inr ''1.0*X0*X1''"
  by (simp_all add: demo_eval)

lemma replace_skip:
  assumes "T \<noteq> []" and "\<not> prefix T (a # y)"
  shows "replaceTemplateWithValue T r (a # y) = a # replaceTemplateWithValue T r y"
proof (cases "find_str T y")
  case None
  then have "find_str T (a # y) = None" using assms by simp
  then have "replaceTemplateWithValue T r (a # y) = a # y"
    using assms(1) by (subst replaceTemplateWithValue.simps) (simp del: replaceTemplateWithValue.simps)
  moreover have "replaceTemplateWithValue T r y = y"
    using assms(1) None by (subst replaceTemplateWithValue.simps) (simp del: replaceTemplateWithValue.simps)
  ultimately show ?thesis by simp
next
  case (Some p)
  then have f: "find_str T (a # y) = Some (Suc p)" using assms by simp
  have "replaceTemplateWithValue T r (a # y) =
      take (Suc p) (a # y) @ r @ replaceTemplateWithValue T r (drop (Suc p + length T) (a # y))"
    using assms(1) f by (subst replaceTemplateWithValue.simps) (simp del: replaceTemplateWithValue.simps)
  moreover have "replaceTemplateWithValue T r y =
      take p y @ r @ replaceTemplateWithValue T r (drop (p + length T) y)"
    using assms(1) Some by (subst replaceTemplateWithValue.simps) (simp del: replaceTemplateWithValue.simps)
  ultimately show ?thesis by (simp del: replaceTemplateWithValue.simps)
qed

lemma replace_skip_text:
  assumes "T \<noteq> []" and "hd T \<notin> set x"
  shows "replaceTemplateWithValue T r (x @ y) = x @ replaceTemplateWithValue T r y"
  using assms(2)
proof (induction x)
  case Nil
  show ?case by simp
next
  case (Cons a x)
  have "\<not> prefix T (a # x @ y)"
    using assms(1) Cons.prems by (cases T) auto
  then have "replaceTemplateWithValue T r (a # x @ y) = a # replaceTemplateWithValue T r (x @ y)"
    using assms(1) by (rule replace_skip[rotated])
  then show ?case using Cons by (simp del: replaceTemplateWithValue.simps)
qed

lemma replace_hit:
  assumes "T \<noteq> []"
  shows "replaceTemplateWithValue T r (T @ y) = r @ replaceTemplateWithValue T r y"
proof -
  have "find_str T (T @ y) = Some 0" using assms by (cases T) auto
  then show ?thesis using assms by (subst replaceTemplateWithValue.simps) (simp del: replaceTemplateWithValue.simps)
qed

lemma replace_none:
  assumes "find_str T y = None"
  shows "replaceTemplateWithValue T r y = y"
  using assms by (subst replaceTemplateWithValue.simps) (simp del: replaceTemplateWithValue.simps)

lemma contents_set: "c \<in> set (contents ps) \<longleftrightarrow> Tmpl c \<in> set ps"
  by (induction ps rule: contents.induct) auto

lemma dec_of_nat_digits: "c \<in> set (dec_of_nat n) \<Longrightarrow> c \<in> set ''0123456789''"
proof -
  define D where "D = ''0123456789''"
  have len: "length D = 10" by (simp add: D_def)
  have "c \<in> set (dec_of_nat n) \<Longrightarrow> c \<in> set D"
  proof (induction n arbitrary: c rule: dec_of_nat.induct)
    case (1 n)
    show ?case
    proof (cases "n < 10")
      case True
      have "dec_of_nat n = [D ! n]"
        unfolding D_def by (subst dec_of_nat.simps) (simp only: True if_True)
      then have "c = D ! n" using "1.prems" by (simp del: dec_of_nat.simps)
      then show ?thesis using True len by (simp del: dec_of_nat.simps)
    next
      case False
      have eq: "dec_of_nat n = dec_of_nat (n div 10) @ [D ! (n mod 10)]"
        unfolding D_def by (subst dec_of_nat.simps) (simp only: False if_False)
      have "c \<in> set (dec_of_nat (n div 10) @ [D ! (n mod 10)])"
        using "1.prems" unfolding eq .
      then have "c = D ! (n mod 10) \<or> c \<in> set (dec_of_nat (n div 10))"
        by (simp del: dec_of_nat.simps)
      moreover have "D ! (n mod 10) \<in> set D" by (rule nth_mem) (simp add: len)
      ultimately show ?thesis using "1.IH"[OF False] by blast
    qed
  qed
  then show "c \<in> set (dec_of_nat n) \<Longrightarrow> c \<in> set ''0123456789''"
    unfolding D_def .
qed

lemma dec_of_nat_nonempty: "dec_of_nat n \<noteq> []"
  by (subst dec_of_nat.simps) (simp del: dec_of_nat.simps)

lemma to_string_chars: "c \<in> set (to_string n) \<Longrightarrow> c = CHR ''-'' \<or> isdigit c"
  by (auto simp: to_string_def isdigit_def simp del: dec_of_nat.simps
      dest!: dec_of_nat_digits split: if_splits)

lemma to_string_nonempty: "to_string n \<noteq> []"
  by (simp add: to_string_def dec_of_nat_nonempty del: dec_of_nat.simps)

lemma to_string_plain:
  "CHR ''{'' \<notin> set (to_string n)" "CHR ''}'' \<notin> set (to_string n)"
  "CHR ''('' \<notin> set (to_string n)" "CHR '')'' \<notin> set (to_string n)"
  "CHR ''|'' \<notin> set (to_string n)" "\<forall>c\<in>set (to_string n). \<not> isspace c"
proof -
  have ch: "c \<in> set ''-0123456789''" if "c \<in> set (to_string n)" for c
    using to_string_chars[OF that] unfolding isdigit_def by auto
  show "CHR ''{'' \<notin> set (to_string n)" using ch[of "CHR ''{''"] by auto
  show "CHR ''}'' \<notin> set (to_string n)" using ch[of "CHR ''}''"] by auto
  show "CHR ''('' \<notin> set (to_string n)" using ch[of "CHR ''(''"] by auto
  show "CHR '')'' \<notin> set (to_string n)" using ch[of "CHR '')''"] by auto
  show "CHR ''|'' \<notin> set (to_string n)" using ch[of "CHR ''|''"] by auto
  show "\<forall>c\<in>set (to_string n). \<not> isspace c"
  proof
    fix c assume "c \<in> set (to_string n)"
    from ch[OF this] show "\<not> isspace c" by (auto simp: isspace_def)
  qed
qed

lemma find_str_split:
  "find_str T s = Some p \<Longrightarrow> s = take p s @ T @ drop (p + length T) s"
proof -
  assume "find_str T s = Some p"
  from find_str_Some[OF this] obtain z where z: "drop p s = T @ z" and "p \<le> length s"
    by (auto simp: prefix_def)
  have "drop (p + length T) s = drop (length T) (drop p s)" by (simp add: add.commute)
  then have "drop (p + length T) s = z" by (simp add: z)
  moreover have "s = take p s @ drop p s" by simp
  ultimately show ?thesis using z by metis
qed

lemma no_template_find:
  assumes "no_template t"
  shows "find_str (''{'' @ c @ ''}'') t = None"
proof (rule ccontr)
  assume "find_str (''{'' @ c @ ''}'') t \<noteq> None"
  then obtain p where "find_str (''{'' @ c @ ''}'') t = Some p" by auto
  from find_str_split[OF this]
  have "t = take p t @ CHR ''{'' # (c @ ''}'' @ drop (p + length (''{'' @ c @ ''}'')) t)" by simp
  with assms have "CHR ''}'' \<notin> set (c @ ''}'' @ drop (p + length (''{'' @ c @ ''}'')) t)"
    unfolding no_template_def by blast
  then show False by simp
qed

lemma no_template_regex:
  assumes "no_template t"
  shows "regex_braces t = []"
proof (cases "dropWhile (\<lambda>c. c \<noteq> CHR ''{'') t")
  case Nil
  show ?thesis by (subst regex_braces.simps) (simp only: Nil list.case)
next
  case (Cons b rest)
  have "b = CHR ''{''" using hd_dropWhile[of "\<lambda>c. c \<noteq> CHR ''{''" t] Cons by simp
  moreover have "t = takeWhile (\<lambda>c. c \<noteq> CHR ''{'') t @ b # rest"
    using takeWhile_dropWhile_id[of "\<lambda>c. c \<noteq> CHR ''{''" t] Cons by simp
  ultimately have "CHR ''}'' \<notin> set rest" using assms unfolding no_template_def by blast
  then show ?thesis by (subst regex_braces.simps) (simp only: Cons list.case if_False)
qed

lemma tmpl_prefix:
  "CHR ''}'' \<notin> set c \<Longrightarrow> CHR ''}'' \<notin> set c' \<Longrightarrow> prefix (c @ CHR ''}'' # u) (c' @ CHR ''}'' # w)
     \<Longrightarrow> c = c'"
proof (induction c arbitrary: c')
  case Nil
  then show ?case by (cases c') auto
next
  case (Cons a cs)
  then show ?case by (cases c') auto
qed

lemma replace_pieces:
  assumes "templates_closed ps t" and "CHR ''}'' \<notin> set c"
  shows "replaceTemplateWithValue (''{'' @ c @ ''}'') r (render ps @ t) = render (map (put c r) ps) @ t"
  using assms(1)
proof (induction ps)
  case Nil
  then have "no_template t" by (simp add: templates_closed_def)
  from replace_none[OF no_template_find[OF this]] show ?case
    by (simp del: replaceTemplateWithValue.simps)
next
  case (Cons p ps)
  have cl: "templates_closed ps t" using Cons.prems by (auto simp: templates_closed_def)
  note IH = Cons.IH[OF cl]
  let ?T = "''{'' @ c @ ''}''"
  have T: "?T \<noteq> []" "hd ?T = CHR ''{''" by simp_all
  show ?case
  proof (cases p)
    case (Lit s)
    then have "CHR ''{'' \<notin> set s" using Cons.prems by (auto simp: templates_closed_def)
    then have "hd ?T \<notin> set s" by simp
    from replace_skip_text[OF T(1) this, of r "render ps @ t"] IH show ?thesis
      by (simp add: Lit del: replaceTemplateWithValue.simps)
  next
    case (Tmpl c')
    then have c': "CHR ''{'' \<notin> set c'" "CHR ''}'' \<notin> set c'"
      using Cons.prems by (auto simp: templates_closed_def)
    show ?thesis
    proof (cases "c' = c")
      case True
      from replace_hit[OF T(1), of r "render ps @ t"] IH show ?thesis
        by (simp add: Tmpl True del: replaceTemplateWithValue.simps)
    next
      case False
      have np: "\<not> prefix ?T (CHR ''{'' # (c' @ ''}'') @ render ps @ t)"
        using tmpl_prefix[OF assms(2) c'(2), of "[]" "render ps @ t"] False by auto
      have "hd ?T \<notin> set (c' @ ''}'')" using c'(1) by simp
      from replace_skip[OF T(1) np, of r]
        replace_skip_text[OF T(1) this, of r "render ps @ t"] IH
      show ?thesis by (simp add: Tmpl False del: replaceTemplateWithValue.simps)
    qed
  qed
qed

lemma regex_braces_pieces:
  assumes "templates_closed ps t"
  shows "regex_braces (render ps @ t) = map (\<lambda>c. ''{'' @ c @ ''}'') (contents ps)"
  using assms
proof (induction ps)
  case Nil
  then have "no_template t" by (simp add: templates_closed_def)
  then show ?case by (simp add: no_template_regex del: regex_braces.simps)
next
  case (Cons p ps)
  have cl: "templates_closed ps t" using Cons.prems by (auto simp: templates_closed_def)
  note IH = Cons.IH[OF cl]
  show ?case
  proof (cases p)
    case (Lit s)
    then have s: "CHR ''{'' \<notin> set s" using Cons.prems by (auto simp: templates_closed_def)
    have d: "dropWhile (\<lambda>c. c \<noteq> CHR ''{'') (s @ render ps @ t)
           = dropWhile (\<lambda>c. c \<noteq> CHR ''{'') (render ps @ t)"
      using s by (intro dropWhile_append2) auto
    have "regex_braces (s @ render ps @ t) = regex_braces (render ps @ t)"
      by (subst regex_braces.simps, subst (2) regex_braces.simps) (simp only: d)
    then show ?thesis using IH by (simp add: Lit del: regex_braces.simps)
  next
    case (Tmpl c)
    then have c: "CHR ''}'' \<notin> set c" using Cons.prems by (auto simp: templates_closed_def)
    have tw: "takeWhile (\<lambda>x. x \<noteq> CHR ''}'') (c @ CHR ''}'' # render ps @ t) = c"
      using c by (subst takeWhile_append2) auto
    have dw: "dropWhile (\<lambda>x. x \<noteq> CHR ''}'') (c @ CHR ''}'' # render ps @ t) = CHR ''}'' # render ps @ t"
      using c by (subst dropWhile_append2) auto
    have "regex_braces (CHR ''{'' # c @ CHR ''}'' # render ps @ t)
            = (CHR ''{'' # c @ ''}'') # regex_braces (render ps @ t)"
      by (subst regex_braces.simps) (simp add: tw dw del: regex_braces.simps)
    then show ?thesis using IH by (simp add: Tmpl del: regex_braces.simps)
  qed
qed

lemma part_empty: "map (part vals {}) ps = ps"
proof -
  have "part vals {} p = p" for p by (cases p) auto
  then show ?thesis by (simp add: map_idI)
qed

lemma part_all: "set (contents ps) \<subseteq> D \<Longrightarrow> render (map (part vals D) ps) = fill vals ps"
  by (induction ps rule: contents.induct) auto

lemma part_step: "put c (to_string (vals c)) (part vals D p) = part vals (insert c D) p"
  by (cases p) auto

lemma part_closed:
  assumes "templates_closed ps t"
  shows "templates_closed (map (part vals D) ps) t"
proof -
  have L: "\<And>s. Lit s \<in> set ps \<Longrightarrow> CHR ''{'' \<notin> set s"
    and T: "\<And>c. Tmpl c \<in> set ps \<Longrightarrow> CHR ''{'' \<notin> set c \<and> CHR ''}'' \<notin> set c"
    and N: "no_template t"
    using assms unfolding templates_closed_def by blast+
  have "CHR ''{'' \<notin> set s" if "Lit s \<in> set (map (part vals D) ps)" for s
  proof -
    from that obtain p where p: "p \<in> set ps" "part vals D p = Lit s" by auto
    show ?thesis
    proof (cases p)
      case (Lit s')
      then show ?thesis using p L by simp
    next
      case (Tmpl c)
      then have "s = to_string (vals c)" using p(2) by (simp split: if_splits)
      then show ?thesis using to_string_plain(1) by simp
    qed
  qed
  moreover have "CHR ''{'' \<notin> set c \<and> CHR ''}'' \<notin> set c"
    if "Tmpl c \<in> set (map (part vals D) ps)" for c
  proof -
    from that obtain p where p: "p \<in> set ps" "part vals D p = Tmpl c" by auto
    show ?thesis
    proof (cases p)
      case (Lit s')
      then show ?thesis using p by simp
    next
      case (Tmpl c')
      then have "c' = c" using p(2) by (simp split: if_splits)
      then show ?thesis using p(1) Tmpl T by simp
    qed
  qed
  ultimately show ?thesis using N unfolding templates_closed_def by blast
qed

lemma fill_cong: "(\<And>c. Tmpl c \<in> set ps \<Longrightarrow> f c = g c) \<Longrightarrow> fill f ps = fill g ps"
  by (induction ps rule: contents.induct) auto

lemma fold_fill:
  assumes cl: "templates_closed ps t"
  shows "\<forall>kv\<in>set kvs. \<exists>c. fst kv = ''{'' @ c @ ''}'' \<and> CHR ''}'' \<notin> set c \<and> snd kv = vals c \<Longrightarrow>
     foldl (\<lambda>result (k, v). replaceTemplateWithValue k (to_string v) result)
       (render (map (part vals D) ps) @ t) kvs
     = render (map (part vals (D \<union> {c. ''{'' @ c @ ''}'' \<in> fst ` set kvs})) ps) @ t"
proof (induction kvs arbitrary: D)
  case Nil
  show ?case by simp
next
  case (Cons kv kvs)
  obtain k n where kv: "kv = (k, n)" by (cases kv)
  from Cons.prems kv obtain c where c: "k = ''{'' @ c @ ''}''" "CHR ''}'' \<notin> set c" "n = vals c"
    by auto
  have step: "replaceTemplateWithValue k (to_string n) (render (map (part vals D) ps) @ t)
      = render (map (part vals (insert c D)) ps) @ t"
  proof -
    have m: "map (put c (to_string (vals c))) (map (part vals D) ps)
        = map (part vals (insert c D)) ps"
      by (simp add: part_step)
    show ?thesis
      unfolding c(1) c(3)
      using replace_pieces[OF part_closed[OF cl, of vals D] c(2), of "to_string (vals c)"]
      unfolding m .
  qed
  have rest: "\<forall>kv\<in>set kvs. \<exists>c. fst kv = ''{'' @ c @ ''}'' \<and> CHR ''}'' \<notin> set c \<and> snd kv = vals c"
    using Cons.prems by simp
  have sets: "insert c D \<union> {c. ''{'' @ c @ ''}'' \<in> fst ` set kvs}
      = D \<union> {c. ''{'' @ c @ ''}'' \<in> fst ` set (kv # kvs)}"
    by (auto simp: kv c(1))
  let ?f = "\<lambda>result (k, v). replaceTemplateWithValue k (to_string v) result"
  have "foldl ?f (render (map (part vals D) ps) @ t) (kv # kvs)
      = foldl ?f (replaceTemplateWithValue k (to_string n) (render (map (part vals D) ps) @ t)) kvs"
    by (simp add: kv del: replaceTemplateWithValue.simps)
  also have "\<dots> = foldl ?f (render (map (part vals (insert c D)) ps) @ t) kvs"
    by (simp only: step)
  also have "\<dots> = render (map (part vals (insert c D \<union> {c. ''{'' @ c @ ''}'' \<in> fst ` set kvs})) ps) @ t"
    by (rule Cons.IH[OF rest])
  also have "\<dots> = render (map (part vals (D \<union> {c. ''{'' @ c @ ''}'' \<in> fst ` set (kv # kvs)})) ps) @ t"
    by (simp only: sets)
  finally show ?case .
qed

lemma template_values_Inr:
  "template_values sv fmt v k ts = Inr kvs \<Longrightarrow>
     map fst kvs = ts \<and> (\<forall>kv\<in>set kvs. template_value sv fmt v k (fst kv) = Inr (snd kv))"
  by (induction ts arbitrary: kvs) (auto split: sum.splits)

lemma template_values_total:
  "\<forall>t\<in>set ts. \<exists>n. template_value sv fmt v k t = Inr n \<Longrightarrow>
     \<exists>kvs. template_values sv fmt v k ts = Inr kvs"
  by (induction ts) (auto split: sum.splits)

lemma template_value_loop:
  "loop_value sv v k c = Some n \<Longrightarrow>
     template_value sv (''{'' @ v @ ''}'') v k (''{'' @ c @ ''}'') = Inr n"
  by (auto simp: loop_value_def template_value_def butlast_append
      split: if_splits option.splits sum.splits)

lemma resolve_fill:
  assumes cl: "templates_closed ps t" and it: "iterates_all sv"
    and res: "resolveLoopTemplate sv (''{'' @ v @ ''}'') (render ps @ t) v k = Inr r"
  shows "\<exists>vals. agrees sv v k ps vals \<and> r = fill vals ps @ t"
proof -
  let ?fmt = "''{'' @ v @ ''}''"
  define ts where "ts = map_order sv (remdups (regex_braces (render ps @ t)))"
  have "set ts = set (remdups (regex_braces (render ps @ t)))"
    using it unfolding ts_def iterates_all_def by (meson distinct_remdups)
  then have ts: "set ts = (\<lambda>c. ''{'' @ c @ ''}'') ` set (contents ps)"
    by (simp add: regex_braces_pieces[OF cl] del: regex_braces.simps)
  from res obtain kvs where kvs: "template_values sv ?fmt v k ts = Inr kvs"
    and r: "r = foldl (\<lambda>result (k, v). replaceTemplateWithValue k (to_string v) result)
                  (render ps @ t) kvs"
    unfolding resolveLoopTemplate_def Let_def ts_def[symmetric]
    by (auto split: sum.splits)
  from template_values_Inr[OF kvs] have fsts: "map fst kvs = ts"
    and tv: "\<forall>kv\<in>set kvs. template_value sv ?fmt v k (fst kv) = Inr (snd kv)" by auto
  define vals where "vals c = (case template_value sv ?fmt v k (''{'' @ c @ ''}'') of
                                  Inr n \<Rightarrow> n | Inl e \<Rightarrow> 0)" for c
  have each: "\<forall>kv\<in>set kvs. \<exists>c. fst kv = ''{'' @ c @ ''}'' \<and> CHR ''}'' \<notin> set c \<and> snd kv = vals c"
  proof
    fix kv assume in_kvs: "kv \<in> set kvs"
    then have "fst kv \<in> set ts" using fsts by force
    then obtain c where c: "fst kv = ''{'' @ c @ ''}''" "Tmpl c \<in> set ps"
      using ts by (auto simp: contents_set)
    have "CHR ''}'' \<notin> set c" using cl c(2) by (auto simp: templates_closed_def)
    moreover have "snd kv = vals c"
    proof -
      from tv in_kvs have "template_value sv ?fmt v k (fst kv) = Inr (snd kv)" by blast
      then have "template_value sv ?fmt v k (''{'' @ c @ ''}'') = Inr (snd kv)"
        by (simp only: c(1))
      then show ?thesis by (simp add: vals_def)
    qed
    ultimately show "\<exists>c. fst kv = ''{'' @ c @ ''}'' \<and> CHR ''}'' \<notin> set c \<and> snd kv = vals c"
      using c(1) by blast
  qed
  have "set (contents ps) \<subseteq> {} \<union> {c. ''{'' @ c @ ''}'' \<in> fst ` set kvs}"
  proof -
    have "fst ` set kvs = set ts" using fsts by (metis set_map)
    then show ?thesis using ts by auto
  qed
  from part_all[OF this, of vals] fold_fill[OF cl each, of "{}"]
  have "r = fill vals ps @ t" by (simp add: r part_empty del: replaceTemplateWithValue.simps)
  moreover have "agrees sv v k ps vals"
    unfolding agrees_def by (auto simp: vals_def dest!: template_value_loop)
  ultimately show ?thesis by blast
qed

lemma resolve_total:
  assumes cl: "templates_closed ps t" and it: "iterates_all sv"
    and ev: "\<forall>c. Tmpl c \<in> set ps \<longrightarrow> loop_value sv v k c \<noteq> None"
  shows "resolveLoopTemplate sv (''{'' @ v @ ''}'') (render ps @ t) v k
           = Inr (substitute sv v k ps @ t)"
proof -
  let ?fmt = "''{'' @ v @ ''}''"
  define ts where "ts = map_order sv (remdups (regex_braces (render ps @ t)))"
  have "set ts = set (remdups (regex_braces (render ps @ t)))"
    using it unfolding ts_def iterates_all_def by (meson distinct_remdups)
  then have ts: "set ts = (\<lambda>c. ''{'' @ c @ ''}'') ` set (contents ps)"
    by (simp add: regex_braces_pieces[OF cl] del: regex_braces.simps)
  have "\<forall>x\<in>set ts. \<exists>n. template_value sv ?fmt v k x = Inr n"
  proof
    fix x assume "x \<in> set ts"
    then obtain c where c: "x = ''{'' @ c @ ''}''" "Tmpl c \<in> set ps"
      using ts by (auto simp: contents_set)
    with ev obtain n where "loop_value sv v k c = Some n" by auto
    from template_value_loop[OF this] show "\<exists>n. template_value sv ?fmt v k x = Inr n"
      using c(1) by blast
  qed
  from template_values_total[OF this] obtain kvs where
    "template_values sv ?fmt v k ts = Inr kvs" by blast
  then obtain r where r: "resolveLoopTemplate sv ?fmt (render ps @ t) v k = Inr r"
    unfolding resolveLoopTemplate_def Let_def ts_def[symmetric] by simp
  from resolve_fill[OF cl it r] obtain vals where
    a: "agrees sv v k ps vals" and f: "r = fill vals ps @ t" by blast
  have "fill vals ps = fill (\<lambda>c. the (loop_value sv v k c)) ps"
  proof (rule fill_cong)
    fix c assume "Tmpl c \<in> set ps"
    with ev a show "vals c = the (loop_value sv v k c)"
      unfolding agrees_def by fastforce
  qed
  then show ?thesis using r f by (simp add: substitute_def)
qed

lemma find_str_occurs: "find_str T (x @ T @ y) \<noteq> None"
proof (induction x)
  case Nil
  have "prefix T s \<Longrightarrow> find_str T s = Some 0" for s by (cases s) auto
  from this[of "T @ y"] show ?case by simp
next
  case (Cons a x)
  then show ?case by auto
qed

lemma render_occurs:
  "Tmpl c \<in> set ps \<Longrightarrow> \<exists>x y. render ps = x @ (''{'' @ c @ ''}'') @ y"
proof (induction ps rule: contents.induct)
  case 1
  then show ?case by simp
next
  case (2 s ps)
  then obtain x y where "render ps = x @ (''{'' @ c @ ''}'') @ y" by auto
  then have "render (Lit s # ps) = (s @ x) @ (''{'' @ c @ ''}'') @ y" by simp
  then show ?case by blast
next
  case (3 c' ps)
  show ?case
  proof (cases "c' = c")
    case True
    have "render (Tmpl c' # ps) = [] @ (''{'' @ c @ ''}'') @ render ps" by (simp add: True)
    then show ?thesis by blast
  next
    case False
    with 3 obtain x y where "render ps = x @ (''{'' @ c @ ''}'') @ y" by auto
    then have "render (Tmpl c' # ps) = (''{'' @ c' @ ''}'' @ x) @ (''{'' @ c @ ''}'') @ y" by simp
    then show ?thesis by blast
  qed
qed

lemma fill_no_space:
  "\<forall>c\<in>set (render ps). \<not> isspace c \<Longrightarrow> \<forall>c\<in>set (fill vals ps). \<not> isspace c"
  using to_string_plain(6) by (induction ps rule: contents.induct) auto

lemma body_no_space:
  assumes "removeWhiteSpaces s = x @ body @ y"
  shows "\<forall>c\<in>set body. \<not> isspace c"
proof
  fix c assume "c \<in> set body"
  then have "c \<in> set (removeWhiteSpaces s)" by (simp add: assms)
  then show "\<not> isspace c" by (rule removeWhiteSpaces_no_space)
qed

lemma filled_text:
  assumes "\<forall>c\<in>set (render ps @ t). \<not> isspace c"
  shows "removeWhiteSpaces (fill vals ps @ t) = fill vals ps @ t"
  using assms fill_no_space[of ps vals] by (intro removeWhiteSpaces_idem) auto

text \<open>
  Claim C3. Let the text without white space be \<open>_SUM[v,a,b,body]\<close> with \<open>a\<close> and
  \<open>b\<close> non-empty strings of digits, the value of \<open>a\<close> at most that of \<open>b\<close> and that
  below \<open>INT_MAX\<close>. Let \<open>body\<close> be literal texts and templates \<open>{content}\<close>, the bare
  \<open>{v}\<close> among them, no content with an opening brace, and let the expression engine
  give every other content a value that fits an \<open>int\<close>, for every loop value from \<open>a\<close>
  to \<open>b\<close>. The text of a loop value \<open>k\<close> is \<open>body\<close> with the numeral of \<open>k\<close> in
  place of \<open>{v}\<close> and the numeral of the engine's value of the content, \<open>v\<close> bound to
  \<open>k\<close> and the value cast to \<open>int\<close>, in place of every other template. If the text of
  every loop value parses (as a time-dependent term when the first text has a channel
  separator, else as a time-independent one), then the parse of the sum term is the sum of
  these parses in order: \<open>b - a + 1\<close> children.
\<close>

theorem sum_term_unrolled:
  assumes form: "removeWhiteSpaces in_string = ''_SUM['' @ v @ '','' @ a @ '','' @ b @ '','' @ body @ '']''"
    and commas: "CHR '','' \<notin> set v" "CHR '','' \<notin> set a" "CHR '','' \<notin> set b"
    and nonempty: "v \<noteq> []" "a \<noteq> []" "b \<noteq> []"
    and digits: "isNumberString a" "isNumberString b"
    and bounds: "dec_val a \<le> dec_val b" "dec_val b < INT_MAX"
    and pieces: "body = render ps @ tl_text" "templates_closed ps tl_text"
    and bare: "Tmpl v \<in> set ps"
    and order: "iterates_all sv"
    and evaluated: "\<forall>k. dec_val a \<le> k \<and> k \<le> dec_val b \<longrightarrow>
        (\<forall>c. Tmpl c \<in> set ps \<longrightarrow> loop_value sv v (int k) c \<noteq> None)"
    and kind: "td = (find_str ''||'' (substitute sv v (int (dec_val a)) ps @ tl_text) \<noteq> None)"
    and each: "\<forall>k. dec_val a \<le> k \<and> k \<le> dec_val b \<longrightarrow>
        (\<exists>t. (if td then TimeDependent_fromString sv (substitute sv v (int k) ps @ tl_text) vars
              else TimeIndependent_fromString sv (substitute sv v (int k) ps @ tl_text) vars)
             = Inr (Some t))"
  shows "\<exists>ts. tryParse sv in_string vars = Inr (Some (SumTerm ts)) \<and>
              length ts = dec_val b - dec_val a + 1 \<and>
              (\<forall>j<length ts.
                 (if td then TimeDependent_fromString sv
                               (substitute sv v (int (dec_val a + j)) ps @ tl_text) vars
                  else TimeIndependent_fromString sv
                               (substitute sv v (int (dec_val a + j)) ps @ tl_text) vars)
                 = Inr (Some (ts ! j)))"
proof -
  let ?fmt = "''{'' @ v @ ''}''"
  let ?r = "\<lambda>k. substitute sv v (int k) ps @ tl_text"
  let ?parse = "\<lambda>r. if td then TimeDependent_fromString sv r vars
                     else TimeIndependent_fromString sv r vars"
  have eq: "Sum_fromString sv in_string vars = unroll_sum sv v a b body vars"
    using form commas by (rule Sum_fromString_form)
  have template: "find_str ?fmt body \<noteq> None"
  proof -
    from render_occurs[OF bare] obtain x y where "render ps = x @ ?fmt @ y" by blast
    then have "body = x @ ?fmt @ (y @ tl_text)" by (simp add: pieces(1))
    then show ?thesis using find_str_occurs[of ?fmt x "y @ tl_text"] by simp
  qed
  have body_ne: "body \<noteq> []"
    using template by (cases body) auto
  have st: "stoi a = Inr (dec_val a)" "stoi b = Inr (dec_val b)"
    using bounds by (simp_all add: stoi_def)
  have resolved: "resolveLoopTemplate sv ?fmt body v (int k) = Inr (?r k)"
    if "dec_val a \<le> k" "k \<le> dec_val b" for k
    unfolding pieces(1) using evaluated that
    by (intro resolve_total[OF pieces(2) order]) blast
  have ws: "\<forall>c\<in>set (render ps @ tl_text). \<not> isspace c"
    using body_no_space[of in_string "''_SUM['' @ v @ '','' @ a @ '','' @ b @ '',''" body "'']''"]
      form by (simp add: pieces(1))
  have clean: "removeWhiteSpaces (?r k) = ?r k" for k
    unfolding substitute_def by (rule filled_text[OF ws])
  have body_k: "loop_body sv td ?fmt body v vars k = ?parse (?r k)"
    if "dec_val a \<le> k" "k \<le> dec_val b" for k
    unfolding loop_body_def resolved[OF that]
    by (simp add: parseLoopExpression_def
        del: TimeDependent_fromString.simps TimeIndependent_fromString.simps)
  have each': "\<forall>k. dec_val a \<le> k \<and> k \<le> dec_val b \<longrightarrow>
      (\<exists>t. loop_body sv td ?fmt body v vars k = Inr (Some t))"
    using each body_k by simp
  from each bounds(1) obtain t0 where p0: "?parse (?r (dec_val a)) = Inr (Some t0)" by blast
  have first: "resolveLoopTemplate sv ?fmt body v (int (dec_val a)) = Inr (?r (dec_val a))"
    using bounds(1) by (intro resolved) simp_all
  have td: "td = (find_str ''||'' (removeWhiteSpaces (?r (dec_val a))) \<noteq> None)"
    by (simp only: clean kind)
  have bar: "td \<Longrightarrow> find_str ''||'' (removeWhiteSpaces (?r (dec_val a))) \<noteq> None"
    and nobar: "\<not> td \<Longrightarrow> find_str ''||'' (removeWhiteSpaces (?r (dec_val a))) = None"
    using td by simp_all
  have tryTI: "TimeIndependent_fromString sv (?r (dec_val a)) vars
      = (if td then Inr None else Inr (Some t0))"
  proof (cases td)
    case True
    from either_null(1)[OF bar[OF True]] True show ?thesis by simp
  next
    case False
    then show ?thesis using p0 by simp
  qed
  have tryTD: "TimeDependent_fromString sv (?r (dec_val a)) vars
      = (if td then Inr (Some t0) else Inr None)"
  proof (cases td)
    case True
    then show ?thesis using p0 by simp
  next
    case False
    from either_null(2)[OF nobar[OF False]] False show ?thesis by simp
  qed
  from sum_loop_unrolls[OF each' bounds(2), of "[]"] obtain ts where
    ts: "sum_loop (loop_body sv td ?fmt body v vars) (dec_val a) (dec_val b) [] = Inr ts"
      "length ts = Suc (dec_val b) - dec_val a"
      "\<forall>j<length ts. loop_body sv td ?fmt body v vars (dec_val a + j) = Inr (Some (ts ! j))"
    by auto
  have "unroll_sum sv v a b body vars = Inr (Some (SumTerm ts))"
  proof (cases td)
    case True
    then show ?thesis
      using nonempty body_ne digits template bounds(1) first tryTI tryTD ts(1)
      by (simp add: unroll_sum_def Let_def st
          del: TimeDependent_fromString.simps TimeIndependent_fromString.simps)
  next
    case False
    then show ?thesis
      using nonempty body_ne digits template bounds(1) first tryTI tryTD ts(1)
      by (simp add: unroll_sum_def Let_def st
          del: TimeDependent_fromString.simps TimeIndependent_fromString.simps)
  qed
  then have "tryParse sv in_string vars = Inr (Some (SumTerm ts))"
    by (simp add: tryParse_def eq
        del: TimeDependent_fromString.simps TimeIndependent_fromString.simps)
  moreover have "length ts = dec_val b - dec_val a + 1"
    using ts(2) bounds(1) by simp
  moreover have "\<forall>j<length ts. ?parse (?r (dec_val a + j)) = Inr (Some (ts ! j))"
  proof (intro allI impI)
    fix j assume j: "j < length ts"
    then have "dec_val a \<le> dec_val a + j" "dec_val a + j \<le> dec_val b"
      using ts(2) by simp_all
    from body_k[OF this] ts(3) j show "?parse (?r (dec_val a + j)) = Inr (Some (ts ! j))"
      by (simp del: TimeDependent_fromString.simps TimeIndependent_fromString.simps)
  qed
  ultimately show ?thesis by blast
qed

lemma demo_iterates_all: "iterates_all demo_services"
  by (simp add: iterates_all_def demo_services_def)

theorem sum_term_unrolled_witness:
  "tryParse demo_services ''_SUM[i, 0, 1, 1.0*X{i}*X{i+1}]'' [] =
     Inr (Some (SumTerm [TimeIndependentTerm 1 [(OpX, 0), (OpX, 1)],
                         TimeIndependentTerm 1 [(OpX, 1), (OpX, 2)]]))"
proof -
  let ?ps = "[Lit ''1.0*X'', Tmpl ''i'', Lit ''*X'', Tmpl ''i+1'']"
  let ?body = "''1.0*X{i}*X{i+1}''"
  have form: "removeWhiteSpaces ''_SUM[i, 0, 1, 1.0*X{i}*X{i+1}]'' =
      ''_SUM['' @ ''i'' @ '','' @ ''0'' @ '','' @ ''1'' @ '','' @ ?body @ '']''"
    by (simp add: removeWhiteSpaces_def isspace_def)
  have commas: "CHR '','' \<notin> set ''i''" "CHR '','' \<notin> set ''0''" "CHR '','' \<notin> set ''1''"
    by simp_all
  have nonempty: "''i'' \<noteq> []" "''0'' \<noteq> []" "''1'' \<noteq> []" by simp_all
  have digits: "isNumberString ''0''" "isNumberString ''1''"
    by (simp_all add: isNumberString_def isdigit_def)
  have dv: "dec_val ''0'' = 0" "dec_val ''1'' = 1" by (simp_all add: dec_val_def)
  have bounds: "dec_val ''0'' \<le> dec_val ''1''" "dec_val ''1'' < INT_MAX"
    by (simp_all add: dv INT_MAX_def)
  have pieces: "?body = render ?ps @ []" "templates_closed ?ps []"
    by (auto simp: templates_closed_def no_template_def)
  have bare: "Tmpl ''i'' \<in> set ?ps" by simp
  have lv: "loop_value demo_services ''i'' 0 ''i'' = Some 0"
    "loop_value demo_services ''i'' 0 ''i+1'' = Some 1"
    "loop_value demo_services ''i'' 1 ''i'' = Some 1"
    "loop_value demo_services ''i'' 1 ''i+1'' = Some 2"
    by (simp_all add: loop_value_def demo_services_def demo_TryEvaluateExpression_def
        int_of_double_def)
  have evaluated: "\<forall>k. dec_val ''0'' \<le> k \<and> k \<le> dec_val ''1'' \<longrightarrow>
      (\<forall>c. Tmpl c \<in> set ?ps \<longrightarrow> loop_value demo_services ''i'' (int k) c \<noteq> None)"
  proof (intro allI impI)
    fix k :: nat and c assume "dec_val ''0'' \<le> k \<and> k \<le> dec_val ''1''" and c: "Tmpl c \<in> set ?ps"
    then have "k = 0 \<or> k = 1" by (auto simp: dv)
    moreover have "c = ''i'' \<or> c = ''i+1''" using c by auto
    ultimately show "loop_value demo_services ''i'' (int k) c \<noteq> None"
      using lv by auto
  qed
  have s0: "substitute demo_services ''i'' 0 ?ps = ''1.0*X0*X1''"
    and s1: "substitute demo_services ''i'' 1 ?ps = ''1.0*X1*X2''"
    by (simp_all add: substitute_def lv to_string_def)
  have kind: "False = (find_str ''||'' (substitute demo_services ''i'' (int (dec_val ''0'')) ?ps @ [])
      \<noteq> None)"
    by (simp add: dv s0)
  have p0: "TimeIndependent_fromString demo_services ''1.0*X0*X1'' [] =
      Inr (Some (TimeIndependentTerm 1 [(OpX, 0), (OpX, 1)]))"
    and p1: "TimeIndependent_fromString demo_services ''1.0*X1*X2'' [] =
      Inr (Some (TimeIndependentTerm 1 [(OpX, 1), (OpX, 2)]))"
    by (simp_all add: demo_eval)
  have each: "\<forall>k. dec_val ''0'' \<le> k \<and> k \<le> dec_val ''1'' \<longrightarrow>
      (\<exists>t. (if False
            then TimeDependent_fromString demo_services
                   (substitute demo_services ''i'' (int k) ?ps @ []) []
            else TimeIndependent_fromString demo_services
                   (substitute demo_services ''i'' (int k) ?ps @ []) [])
           = Inr (Some t))"
  proof (intro allI impI)
    fix k :: nat assume "dec_val ''0'' \<le> k \<and> k \<le> dec_val ''1''"
    then have "k = 0 \<or> k = 1" by (auto simp: dv)
    then show "\<exists>t. (if False
            then TimeDependent_fromString demo_services
                   (substitute demo_services ''i'' (int k) ?ps @ []) []
            else TimeIndependent_fromString demo_services
                   (substitute demo_services ''i'' (int k) ?ps @ []) [])
           = Inr (Some t)"
      using p0 p1 s0 s1
      by (auto simp del: TimeDependent_fromString.simps TimeIndependent_fromString.simps)
  qed
  from sum_term_unrolled[OF form commas nonempty digits bounds pieces bare demo_iterates_all
      evaluated kind each]
  obtain ts where ts: "tryParse demo_services ''_SUM[i, 0, 1, 1.0*X{i}*X{i+1}]'' [] =
        Inr (Some (SumTerm ts))" "length ts = dec_val ''1'' - dec_val ''0'' + 1"
      "\<forall>j<length ts.
         (if False
          then TimeDependent_fromString demo_services
                 (substitute demo_services ''i'' (int (dec_val ''0'' + j)) ?ps @ []) []
          else TimeIndependent_fromString demo_services
                 (substitute demo_services ''i'' (int (dec_val ''0'' + j)) ?ps @ []) [])
         = Inr (Some (ts ! j))"
    by blast
  have len: "length ts = 2" using ts(2) by (simp add: dv)
  have "ts ! 0 = TimeIndependentTerm 1 [(OpX, 0), (OpX, 1)]"
    using ts(3)[rule_format, of 0] len p0 s0
    by (simp add: dv del: TimeDependent_fromString.simps TimeIndependent_fromString.simps)
  moreover have "ts ! 1 = TimeIndependentTerm 1 [(OpX, 1), (OpX, 2)]"
    using ts(3)[rule_format, of 1] len p1 s1
    by (simp add: dv del: TimeDependent_fromString.simps TimeIndependent_fromString.simps)
  ultimately have "ts = [TimeIndependentTerm 1 [(OpX, 0), (OpX, 1)],
                         TimeIndependentTerm 1 [(OpX, 1), (OpX, 2)]]"
    using len by (cases ts; cases "tl ts") auto
  with ts(1) show ?thesis by simp
qed

text \<open>
  Claim C3 as stated is about all integer bounds. A negative start bound is not a
  string of digits and the parse is null, although the text of every loop value from -1
  to 1 parses.
\<close>

theorem negative_bound_counterexample:
  "tryParse demo_services ''_SUM[i,-1,1,{i}*X0]'' [] = Inr None \<and>
   Sum_fromString demo_services ''_SUM[i,-1,1,{i}*X0]'' [] = Inr None \<and>
   substitute demo_services ''i'' (- 1) [Tmpl ''i'', Lit ''*X0''] = ''-1*X0'' \<and>
   substitute demo_services ''i'' 0 [Tmpl ''i'', Lit ''*X0''] = ''0*X0'' \<and>
   substitute demo_services ''i'' 1 [Tmpl ''i'', Lit ''*X0''] = ''1*X0'' \<and>
   resolveLoopTemplate demo_services ''{i}'' ''{i}*X0'' ''i'' (- 1) = Inr ''-1*X0'' \<and>
   resolveLoopTemplate demo_services ''{i}'' ''{i}*X0'' ''i'' 0 = Inr ''0*X0'' \<and>
   resolveLoopTemplate demo_services ''{i}'' ''{i}*X0'' ''i'' 1 = Inr ''1*X0'' \<and>
   tryParse demo_services ''-1*X0'' [] = Inr (Some (TimeIndependentTerm (- 1) [(OpX, 0)])) \<and>
   tryParse demo_services ''0*X0'' [] = Inr (Some (TimeIndependentTerm 0 [(OpX, 0)])) \<and>
   tryParse demo_services ''1*X0'' [] = Inr (Some (TimeIndependentTerm 1 [(OpX, 0)]))"
  by (simp add: demo_eval substitute_def loop_value_def)

subsection \<open>Malformed inputs\<close>

lemma paren_depth_append:
  "paren_depth (x @ y) d = (case paren_depth x d of None \<Rightarrow> None | Some d' \<Rightarrow> paren_depth y d')"
  by (induction x arbitrary: d) (auto split: nat.splits)

lemma paren_depth_clean:
  "CHR ''('' \<notin> set w \<Longrightarrow> CHR '')'' \<notin> set w \<Longrightarrow> paren_depth w d = Some d"
  by (induction w) auto

lemma paren_depth_block:
  "CHR ''('' \<notin> set w \<Longrightarrow> CHR '')'' \<notin> set w \<Longrightarrow> paren_depth (CHR ''('' # w @ '')'') d = Some d"
  by (simp add: paren_depth_append paren_depth_clean)

lemma balanced_unwrap:
  assumes "length (UnwrapOpExpresion x) = 2"
  shows "balanced (UnwrapOpExpresion x ! 0) = balanced x"
    and "balanced (UnwrapOpExpresion x ! 1) = balanced x"
proof -
  from UnwrapOpExpresion_shape[OF assms] obtain coeff w1 pm w2 where
    x: "x = coeff @ CHR ''('' # w1 @ pm # w2 @ '')''"
    and u: "UnwrapOpExpresion x = [coeff @ w1, CHR ''('' # pm # ''1.0)*'' @ coeff @ w2]"
    and no: "CHR ''('' \<notin> set (w1 @ pm # w2)" and nc: "CHR '')'' \<notin> set (w1 @ pm # w2)"
    and pm: "pm = CHR ''+'' \<or> pm = CHR ''-''"
    by blast
  have bx: "paren_depth x 0 = paren_depth coeff 0"
    using paren_depth_block[OF no nc]
    by (simp add: x paren_depth_append[of coeff] split: option.splits)
  have b0: "paren_depth (coeff @ w1) 0 = paren_depth coeff 0"
    using no nc by (simp add: paren_depth_append paren_depth_clean split: option.splits)
  have "paren_depth (CHR ''('' # pm # ''1.0)*'' @ coeff @ w2) 0 = paren_depth (coeff @ w2) 0"
    using pm by auto
  also have "\<dots> = paren_depth coeff 0"
    using no nc by (simp add: paren_depth_append paren_depth_clean split: option.splits)
  finally have b1: "paren_depth (CHR ''('' # pm # ''1.0)*'' @ coeff @ w2) 0 = paren_depth coeff 0" .
  show "balanced (UnwrapOpExpresion x ! 0) = balanced x"
    by (simp add: balanced_def u bx b0)
  show "balanced (UnwrapOpExpresion x ! 1) = balanced x"
    unfolding balanced_def u bx using b1 by simp
qed

lemma toupper_paren: "toupper CHR ''('' = CHR ''(''" "toupper CHR '')'' = CHR '')''"
  "\<not> isalpha CHR ''(''" "\<not> isalpha CHR '')''" "\<not> isdigit CHR ''(''" "\<not> isdigit CHR '')''"
  by (simp_all add: toupper_def isalpha_def isdigit_def)

lemma digit_not_alpha: "isdigit c \<Longrightarrow> \<not> isalpha c"
  by (auto simp: isalpha_def isdigit_def)

lemma find_if_not_append:
  "\<forall>c\<in>set a. p c \<Longrightarrow> b \<noteq> [] \<Longrightarrow> \<not> p (hd b) \<Longrightarrow> find_if_not p (a @ b) = Some (length a)"
  by (induction a) (auto simp: neq_Nil_conv)

lemma find_last_of_split:
  assumes "find_last_of c s = Some p"
  shows "s = take p s @ c # drop (Suc p) s" and "c \<notin> set (drop (Suc p) s)"
  using find_last_of_Some[OF assms] id_take_nth_drop[of p s] by auto

lemma GetLastOperator_operator:
  "GetLastOperator sv x \<noteq> Inr None \<longleftrightarrow> ends_with_operator sv x"
proof
  assume g: "GetLastOperator sv x \<noteq> Inr None"
  then obtain pos where pos: "find_last_of CHR ''*'' x = Some pos"
    by (auto simp: GetLastOperator_def split: option.splits)
  define t where "t = drop (Suc pos) x"
  from g pos obtain k where k: "find_if_not isalpha (toUpperCase t) = Some k"
    by (auto simp: GetLastOperator_def Let_def t_def split: option.splits)
  from g pos k have nm: "take k (toUpperCase t) \<noteq> []"
    and cv: "ConvertOperatorFromString sv (take k (toUpperCase t)) \<noteq> None"
    and nb: "isNumberString (drop k (toUpperCase t))"
    by (auto simp: GetLastOperator_def Let_def t_def split: option.splits if_splits)
  from find_if_not_Some[OF k] have kl: "k < length (toUpperCase t)"
    and al: "\<forall>c\<in>set (take k (toUpperCase t)). isalpha c" by auto
  have "operator_at_site sv t"
    unfolding operator_at_site_def
    using nm cv nb al kl
    by (intro exI[of _ "take k (toUpperCase t)"] exI[of _ "drop k (toUpperCase t)"])
       (auto simp: isNumberString_iff)
  then show "ends_with_operator sv x"
    unfolding ends_with_operator_def
    using find_last_of_split[OF pos] by (auto simp: t_def)
next
  assume "ends_with_operator sv x"
  then obtain k t name idx where x: "x = k @ CHR ''*'' # t" and t: "CHR ''*'' \<notin> set t"
    and u: "toUpperCase t = name @ idx" and nm: "name \<noteq> []" "\<forall>c\<in>set name. isalpha c"
    and ix: "idx \<noteq> []" "\<forall>c\<in>set idx. isdigit c"
    and cv: "ConvertOperatorFromString sv name \<noteq> None"
    by (auto simp: ends_with_operator_def operator_at_site_def)
  have pos: "find_last_of CHR ''*'' x = Some (length k)"
    unfolding x using t by (rule find_last_of_append)
  have "\<not> isalpha (hd idx)" using ix by (auto simp: neq_Nil_conv digit_not_alpha)
  then have f: "find_if_not isalpha (name @ idx) = Some (length name)"
    using nm ix by (intro find_if_not_append) auto
  have d: "drop (Suc (length k)) x = t" by (simp add: x)
  show "GetLastOperator sv x \<noteq> Inr None"
    using nm cv ix
    by (auto simp: GetLastOperator_def Let_def pos d u f isNumberString_iff
        split: option.splits sum.splits)
qed

text \<open>An operator at a site has no parenthesis, so the loop keeps the balance.\<close>

lemma GetLastOperator_balanced:
  assumes "GetLastOperator sv x = Inr (Some (q, sub))"
  shows "balanced sub = balanced x"
proof -
  from assms obtain pos where pos: "find_last_of CHR ''*'' x = Some pos"
    by (auto simp: GetLastOperator_def split: option.splits)
  define t where "t = drop (Suc pos) x"
  from assms pos obtain k where k: "find_if_not isalpha (toUpperCase t) = Some k"
    by (auto simp: GetLastOperator_def Let_def t_def split: option.splits)
  from assms pos k have nb: "isNumberString (drop k (toUpperCase t))" and sub: "sub = take pos x"
    by (auto simp: GetLastOperator_def Let_def t_def split: option.splits if_splits sum.splits)
  from find_if_not_Some[OF k] have al: "\<forall>c\<in>set (take k (toUpperCase t)). isalpha c" by auto
  have "\<forall>c\<in>set (toUpperCase t). isalpha c \<or> isdigit c"
  proof
    fix c assume "c \<in> set (toUpperCase t)"
    then have "c \<in> set (take k (toUpperCase t) @ drop k (toUpperCase t))" by simp
    then show "isalpha c \<or> isdigit c"
      using al nb unfolding set_append isNumberString_iff by blast
  qed
  then have "\<forall>c\<in>set t. isalpha (toupper c) \<or> isdigit (toupper c)"
    by (simp add: toUpperCase_def)
  then have clean: "CHR ''('' \<notin> set t" "CHR '')'' \<notin> set t"
    using toupper_paren by auto
  have "x = sub @ CHR ''*'' # t"
    using find_last_of_split(1)[OF pos] by (simp add: sub t_def)
  then have "paren_depth x 0 = paren_depth sub 0"
    using clean by (simp add: paren_depth_append paren_depth_clean split: option.splits)
  then show ?thesis by (simp add: balanced_def)
qed

lemma parse_operators_balanced:
  "\<not> balanced y \<Longrightarrow> r = [] \<or> \<not> balanced r \<Longrightarrow> parse_operators sv y acc r = Inr (os, rem)
     \<Longrightarrow> rem = [] \<or> \<not> balanced rem"
proof (induction sv y acc r rule: parse_operators.induct)
  case (1 sv tempStr operators remainderStr)
  show ?case
  proof (cases "GetLastOperator sv tempStr")
    case (Inl e)
    then show ?thesis using "1.prems"(3) by (subst (asm) parse_operators.simps) simp
  next
    case (Inr o1)
    show ?thesis
    proof (cases o1)
      case None
      have "parse_operators sv tempStr operators remainderStr = Inr (operators, remainderStr)"
        using Inr None by (intro parse_operators_stop) simp
      then show ?thesis using "1.prems" by simp
    next
      case (Some a)
      obtain q sub where a: "a = (q, sub)" by (cases a)
      have g: "GetLastOperator sv tempStr = Inr (Some (q, sub))" using Inr Some a by simp
      have nb: "\<not> balanced sub" using GetLastOperator_balanced[OF g] "1.prems"(1) by simp
      have "parse_operators sv sub (operators @ [q]) sub = Inr (os, rem)"
        using "1.prems"(3) g by (subst (asm) parse_operators.simps) simp
      from "1.IH"[OF Inr Some a[symmetric] nb _ this] nb show ?thesis by simp
    qed
  qed
qed

lemma valid_channel_name: "valid_channel (toUpperCase ch) \<longleftrightarrow> channel_name ch"
proof (cases "toUpperCase ch")
  case Nil
  then show ?thesis by (simp add: valid_channel_def channel_name_def)
next
  case (Cons d ds)
  then show ?thesis
    by (cases ds) (auto simp: valid_channel_def channel_name_def isNumberString_iff)
qed

lemma closing_group_unwrap:
  assumes "length (UnwrapOpExpresion x) = 2"
  shows "closing_group x"
proof -
  from UnwrapOpExpresion_shape[OF assms] obtain coeff w1 pm w2 where
    x: "x = coeff @ CHR ''('' # w1 @ pm # w2 @ '')''"
    and no: "CHR ''('' \<notin> set (w1 @ pm # w2)" and nc: "CHR '')'' \<notin> set (w1 @ pm # w2)"
    by blast
  have "x = coeff @ CHR ''('' # (w1 @ pm # w2) @ '')''" by (simp add: x)
  then show ?thesis unfolding closing_group_def using no nc by blast
qed

lemma closing_group_iff:
  "closing_group x \<longleftrightarrow>
     (x \<noteq> [] \<and> last x = CHR '')'' \<and>
      (case find_last_of CHR ''('' x of
         None \<Rightarrow> False
       | Some pos \<Rightarrow> CHR '')'' \<notin> set (butlast (drop (Suc pos) x))))"
proof
  assume "closing_group x"
  then obtain c w where x: "x = c @ CHR ''('' # w @ '')''"
    and w: "CHR ''('' \<notin> set w" "CHR '')'' \<notin> set w"
    by (auto simp: closing_group_def)
  have "find_last_of CHR ''('' x = Some (length c)"
    unfolding x using w by (intro find_last_of_append) auto
  moreover have "butlast (drop (Suc (length c)) x) = w" by (simp add: x butlast_append)
  ultimately show "x \<noteq> [] \<and> last x = CHR '')'' \<and>
      (case find_last_of CHR ''('' x of
         None \<Rightarrow> False
       | Some pos \<Rightarrow> CHR '')'' \<notin> set (butlast (drop (Suc pos) x)))"
    using w by (simp add: x)
next
  assume a: "x \<noteq> [] \<and> last x = CHR '')'' \<and>
      (case find_last_of CHR ''('' x of
         None \<Rightarrow> False
       | Some pos \<Rightarrow> CHR '')'' \<notin> set (butlast (drop (Suc pos) x)))"
  then obtain pos where pos: "find_last_of CHR ''('' x = Some pos"
    and nc: "CHR '')'' \<notin> set (butlast (drop (Suc pos) x))"
    by (auto split: option.splits)
  from find_last_of_split[OF pos] have sp: "x = take pos x @ CHR ''('' # drop (Suc pos) x"
    and no: "CHR ''('' \<notin> set (drop (Suc pos) x)" by auto
  have ne: "drop (Suc pos) x \<noteq> []"
  proof
    assume "drop (Suc pos) x = []"
    then have "last x = CHR ''(''" using sp by (metis last_snoc)
    then show False using a by simp
  qed
  then have "last (drop (Suc pos) x) = CHR '')''" using a sp by (metis last_ConsR last_appendR list.distinct(1))
  then have d: "drop (Suc pos) x = butlast (drop (Suc pos) x) @ '')''"
    using ne by (metis append_butlast_last_id)
  have "CHR ''('' \<notin> set (butlast (drop (Suc pos) x))"
    using no by (auto dest: in_set_butlastD)
  then show "closing_group x"
    unfolding closing_group_def using sp d nc by metis
qed

lemma sum_of_two_term:
  "sum_of_two a b = Inr (Some t) \<Longrightarrow> \<exists>t1 t2. a = Inr (Some t1) \<and> b = Inr (Some t2)"
  by (auto simp: sum_of_two_def split: sum.splits option.splits)

lemma product_term_unbalanced:
  assumes "engine_rejects_unbalanced sv vars" and "\<not> balanced x"
  shows "product_term sv mk x vars \<noteq> Inr (Some t)"
proof (cases "parse_operators sv x [] []")
  case (Inl e)
  then show ?thesis by (simp add: product_term_def)
next
  case (Inr p)
  obtain os rem where p: "p = (os, rem)" by (cases p)
  from parse_operators_balanced[OF assms(2) _ Inr[unfolded p]]
  have "rem = [] \<or> \<not> balanced rem" by simp
  then have "TryEvaluateExpression sv rem vars = None"
    using assms(1) by (auto simp: engine_rejects_unbalanced_def)
  then show ?thesis unfolding product_term_def Inr p by simp
qed

lemma unwrap_no_space:
  assumes two: "length (UnwrapOpExpresion x) = 2"
    and ws: "\<forall>c\<in>set (x @ rest). \<not> isspace c"
  shows "removeWhiteSpaces (UnwrapOpExpresion x ! 0 @ rest) = UnwrapOpExpresion x ! 0 @ rest"
    and "removeWhiteSpaces (UnwrapOpExpresion x ! 1 @ rest) = UnwrapOpExpresion x ! 1 @ rest"
proof -
  from UnwrapOpExpresion_shape[OF two] obtain coeff w1 pm w2 where
    x: "x = coeff @ CHR ''('' # w1 @ pm # w2 @ '')''"
    and u: "UnwrapOpExpresion x = [coeff @ w1, CHR ''('' # pm # ''1.0)*'' @ coeff @ w2]"
    and pm: "pm = CHR ''+'' \<or> pm = CHR ''-''"
    by blast
  have e0: "UnwrapOpExpresion x ! 0 = coeff @ w1"
    and e1: "UnwrapOpExpresion x ! 1 = CHR ''('' # pm # ''1.0)*'' @ coeff @ w2"
    by (simp_all add: u)
  show "removeWhiteSpaces (UnwrapOpExpresion x ! 0 @ rest) = UnwrapOpExpresion x ! 0 @ rest"
    unfolding e0 using ws by (intro removeWhiteSpaces_idem) (auto simp: x)
  show "removeWhiteSpaces (UnwrapOpExpresion x ! 1 @ rest) = UnwrapOpExpresion x ! 1 @ rest"
    unfolding e1 using ws pm by (intro removeWhiteSpaces_idem) (auto simp: x sign_chars_no_space)
qed

lemma TimeIndependent_unbalanced:
  "engine_rejects_unbalanced sv vars \<Longrightarrow> \<not> balanced (removeWhiteSpaces s)
     \<Longrightarrow> TimeIndependent_fromString sv s vars \<noteq> Inr (Some t)"
proof (induction sv s vars arbitrary: t rule: TimeIndependent_fromString.induct)
  case (1 sv in_string in_vars)
  let ?e = "removeWhiteSpaces in_string"
  let ?u = "UnwrapOpExpresion ?e"
  have ne: "?e \<noteq> []" using "1.prems"(2) by (auto simp: balanced_def)
  show ?case
  proof (cases "find_str ''||'' ?e = None")
    case False
    then show ?thesis using either_null(1)[of in_string sv in_vars] by simp
  next
    case nobar: True
    show ?thesis
    proof (cases "last ?e = CHR '')''")
      case False
      have "TimeIndependent_fromString sv in_string in_vars
              = product_term sv TimeIndependentTerm ?e in_vars"
        using nobar ne False by (subst TimeIndependent_fromString.simps) (simp add: Let_def)
      then show ?thesis using product_term_unbalanced[OF "1.prems"] by simp
    next
      case paren: True
      show ?thesis
      proof (cases "length ?u = 2")
        case False
        have "TimeIndependent_fromString sv in_string in_vars = Inr None"
          using nobar ne paren False by (subst TimeIndependent_fromString.simps) (simp add: Let_def)
        then show ?thesis by simp
      next
        case two: True
        have step: "TimeIndependent_fromString sv in_string in_vars
              = sum_of_two (TimeIndependent_fromString sv (?u ! 0) in_vars)
                  (TimeIndependent_fromString sv (?u ! 1) in_vars)"
          using nobar ne paren two
          by (subst TimeIndependent_fromString.simps)
             (simp add: Let_def del: TimeIndependent_fromString.simps)
        have ws: "\<forall>c\<in>set (?e @ []). \<not> isspace c" by (simp add: removeWhiteSpaces_no_space)
        have r0: "removeWhiteSpaces (?u ! 0) = ?u ! 0"
          using unwrap_no_space(1)[OF two ws] by simp
        have "\<not> balanced (?u ! 0)" using balanced_unwrap(1)[OF two] "1.prems"(2) by simp
        then have nb: "\<not> balanced (removeWhiteSpaces (?u ! 0))" by (simp add: r0)
        have "\<And>t0. TimeIndependent_fromString sv (?u ! 0) in_vars \<noteq> Inr (Some t0)"
          using "1.IH"(1)[OF refl _ ne paren refl _ "1.prems"(1) nb] nobar two by simp
        then show ?thesis unfolding step using sum_of_two_term by blast
      qed
    qed
  qed
qed

lemma find_str_first:
  "\<exists>k\<le>length y. find_str ''||'' (y @ ''||'' @ r) = Some k"
  by (induction y) auto

lemma valid_channel_no_bar: "valid_channel ch \<Longrightarrow> CHR ''|'' \<notin> set ch"
proof
  assume v: "valid_channel ch" and b: "CHR ''|'' \<in> set ch"
  then obtain d ds where ch: "ch = d # ds" by (cases ch) (auto simp: valid_channel_def)
  from v have "d = CHR ''D'' \<or> d = CHR ''U''" and "\<forall>c\<in>set ds. isdigit c"
    by (auto simp: valid_channel_def ch isNumberString_iff)
  moreover have "\<not> isdigit CHR ''|''" by (simp add: isdigit_def)
  ultimately show False using b by (auto simp: ch)
qed

lemma toUpperCase_bar: "CHR ''|'' \<in> set w \<Longrightarrow> CHR ''|'' \<in> set (toUpperCase w)"
proof -
  assume "CHR ''|'' \<in> set w"
  then have "toupper CHR ''|'' \<in> set (toUpperCase w)" by (simp add: toUpperCase_def)
  then show ?thesis by (simp add: toupper_def)
qed

text \<open>A separator found before the end of the expression leaves a bar in the channel.\<close>

lemma TimeDependent_early_bar:
  assumes ws: "removeWhiteSpaces (y @ ''||'' @ r) = y @ ''||'' @ r"
    and k: "find_str ''||'' (y @ ''||'' @ r) = Some k" and lt: "k < length y"
  shows "TimeDependent_fromString sv (y @ ''||'' @ r) vars = Inr None"
proof -
  have "drop (k + 2) (y @ ''||'' @ r) = drop (k + 2) y @ drop (k + 2 - length y) (''||'' @ r)"
    by simp
  moreover have "k + 2 - length y = 0 \<or> k + 2 - length y = 1" using lt by auto
  ultimately have "CHR ''|'' \<in> set (drop (k + 2) (y @ ''||'' @ r))" by auto
  then have "\<not> valid_channel (toUpperCase (drop (k + 2) (y @ ''||'' @ r)))"
    using valid_channel_no_bar toUpperCase_bar by blast
  then show ?thesis
    using k ws by (subst TimeDependent_fromString.simps)
       (simp add: Let_def del: TimeDependent_fromString.simps)
qed

lemma TimeDependent_unbalanced:
  "engine_rejects_unbalanced sv vars \<Longrightarrow> find_str ''||'' (removeWhiteSpaces s) = Some sep
     \<Longrightarrow> \<not> balanced (take sep (removeWhiteSpaces s))
     \<Longrightarrow> TimeDependent_fromString sv s vars \<noteq> Inr (Some t)"
proof (induction sv s vars arbitrary: sep t rule: TimeDependent_fromString.induct)
  case (1 sv in_string in_vars)
  let ?e = "removeWhiteSpaces in_string"
  let ?x = "take sep ?e"
  let ?ch = "toUpperCase (drop (sep + 2) ?e)"
  let ?u = "UnwrapOpExpresion ?x"
  note sep = "1.prems"(2)
  have "balanced []" by (simp add: balanced_def)
  then have ne: "?x \<noteq> []" using "1.prems"(3) by metis
  from find_str_Some[OF sep] have "prefix ''||'' (drop sep ?e)" by simp
  then obtain r where r: "drop sep ?e = ''||'' @ r" by (auto simp: prefix_def)
  show ?case
  proof (cases "valid_channel ?ch")
    case False
    have "TimeDependent_fromString sv in_string in_vars = Inr None"
      using sep False by (subst TimeDependent_fromString.simps)
       (simp add: Let_def del: TimeDependent_fromString.simps)
    then show ?thesis by simp
  next
    case valid: True
    show ?thesis
    proof (cases "last ?x = CHR '')''")
      case False
      have "TimeDependent_fromString sv in_string in_vars
              = product_term sv (TimeDependentTerm ?ch) ?x in_vars"
        using sep valid ne False by (subst TimeDependent_fromString.simps)
       (simp add: Let_def del: TimeDependent_fromString.simps)
      then show ?thesis using product_term_unbalanced[OF "1.prems"(1,3)] by simp
    next
      case paren: True
      show ?thesis
      proof (cases "length ?u = 2")
        case False
        have "TimeDependent_fromString sv in_string in_vars = Inr None"
          using sep valid ne paren False
          by (subst TimeDependent_fromString.simps)
       (simp add: Let_def del: TimeDependent_fromString.simps)
        then show ?thesis by simp
      next
        case two: True
        have step: "TimeDependent_fromString sv in_string in_vars
              = sum_of_two (TimeDependent_fromString sv (?u ! 0 @ drop sep ?e) in_vars)
                  (TimeDependent_fromString sv (?u ! 1 @ drop sep ?e) in_vars)"
          using sep valid ne paren two
          by (subst TimeDependent_fromString.simps)
             (simp add: Let_def del: TimeDependent_fromString.simps)
        have ws: "\<forall>c\<in>set (?x @ drop sep ?e). \<not> isspace c"
          by (simp add: removeWhiteSpaces_no_space)
        have r0: "removeWhiteSpaces (?u ! 0 @ drop sep ?e) = ?u ! 0 @ drop sep ?e"
          by (rule unwrap_no_space(1)[OF two ws])
        from find_str_first[of "?u ! 0" r] obtain k where kl: "k \<le> length (?u ! 0)"
          and k: "find_str ''||'' (?u ! 0 @ ''||'' @ r) = Some k" by blast
        have "\<And>t0. TimeDependent_fromString sv (?u ! 0 @ drop sep ?e) in_vars \<noteq> Inr (Some t0)"
        proof (cases "k < length (?u ! 0)")
          case True
          have "TimeDependent_fromString sv (?u ! 0 @ ''||'' @ r) in_vars = Inr None"
            using r0 k True unfolding r by (rule TimeDependent_early_bar)
          then show "\<And>t0. TimeDependent_fromString sv (?u ! 0 @ drop sep ?e) in_vars \<noteq> Inr (Some t0)"
            unfolding r by simp
        next
          case False
          then have ke: "k = length (?u ! 0)" using kl by simp
          have k': "find_str ''||'' (removeWhiteSpaces (?u ! 0 @ drop sep ?e)) = Some k"
            unfolding r0 unfolding r by (rule k)
          have "\<not> balanced (?u ! 0)" using balanced_unwrap(1)[OF two] "1.prems"(3) by simp
          then have nb: "\<not> balanced (take k (removeWhiteSpaces (?u ! 0 @ drop sep ?e)))"
            unfolding r0 by (simp add: ke)
          show "\<And>t0. TimeDependent_fromString sv (?u ! 0 @ drop sep ?e) in_vars \<noteq> Inr (Some t0)"
            using "1.IH"(1)[OF refl sep refl _ refl ne paren refl _ "1.prems"(1) k' nb] valid two
            by simp
        qed
        then show ?thesis unfolding step using sum_of_two_term by blast
      qed
    qed
  qed
qed

lemma product_term_no_operator:
  assumes "\<not> ends_with_operator sv x" and "TryEvaluateExpression sv [] vars = None"
  shows "product_term sv mk x vars = Inr None"
proof -
  have "GetLastOperator sv x = Inr None" using assms(1) GetLastOperator_operator by blast
  then have "parse_operators sv x [] [] = Inr ([], [])" by (rule parse_operators_stop)
  then show ?thesis unfolding product_term_def using assms(2) by simp
qed

lemma demo_engine_rejects: "engine_rejects_unbalanced demo_services vars"
  by (auto simp: engine_rejects_unbalanced_def demo_services_def demo_TryEvaluateExpression_def
      balanced_def split: if_splits)

lemma plain_not_sum:
  assumes "\<not> prefix ''_SUM['' (removeWhiteSpaces s) \<or> last (removeWhiteSpaces s) \<noteq> CHR '']''"
  shows "Sum_fromString sv s vars = Inr None"
  using assms by (auto simp: Sum_fromString_def Let_def)

lemma UnwrapOpExpresion_split:
  assumes "group_split x c A pm B"
  shows "UnwrapOpExpresion x = [c @ A, ''('' @ [pm] @ ''1.0)*'' @ c @ B]"
proof -
  from assms have x: "x = c @ CHR ''('' # A @ pm # B @ '')''"
    and nA: "CHR ''('' \<notin> set A" "CHR '')'' \<notin> set A"
    and nB: "CHR ''('' \<notin> set B" "CHR '')'' \<notin> set B"
    and pm: "(pm = CHR ''+'' \<and> CHR ''+'' \<notin> set A) \<or>
             (pm = CHR ''-'' \<and> CHR ''+'' \<notin> set (A @ B) \<and> CHR ''-'' \<notin> set A)"
    by (auto simp: group_split_def)
  have pmc: "pm \<noteq> CHR ''(''" "pm \<noteq> CHR '')''" using pm by auto
  have pos: "find_last_of CHR ''('' x = Some (length c)"
    unfolding x using nA nB pmc by (intro find_last_of_append) auto
  have w: "butlast (drop (Suc (length c)) x) = A @ pm # B"
    by (simp add: x butlast_append)
  have np: "find_char CHR ''('' (A @ pm # B) = None" "find_char CHR '')'' (A @ pm # B) = None"
    using nA nB pmc by (auto simp: find_char_None)
  have pmPos: "(if find_char CHR ''+'' (A @ pm # B) = None then find_char CHR ''-'' (A @ pm # B)
                else find_char CHR ''+'' (A @ pm # B)) = Some (length A)"
    using pm by (auto simp: find_char_None find_char_append)
  have ne: "x \<noteq> []" "last x = CHR '')''" by (simp_all add: x)
  show ?thesis
    unfolding UnwrapOpExpresion_def Let_def
    using ne
    by (simp only: pos w np pmPos option.case add_Suc_right add_0_right One_nat_def)
       (simp add: nth_append x)
qed

lemma TimeIndependent_steps:
  assumes "find_str ''||'' (removeWhiteSpaces s) = None"
  shows "removeWhiteSpaces s = [] \<Longrightarrow> TimeIndependent_fromString sv s vars = Inl UndefinedBehaviour"
    and "removeWhiteSpaces s \<noteq> [] \<Longrightarrow> last (removeWhiteSpaces s) = CHR '')'' \<Longrightarrow>
         length (UnwrapOpExpresion (removeWhiteSpaces s)) \<noteq> 2 \<Longrightarrow>
         TimeIndependent_fromString sv s vars = Inr None"
    and "removeWhiteSpaces s \<noteq> [] \<Longrightarrow> last (removeWhiteSpaces s) = CHR '')'' \<Longrightarrow>
         length (UnwrapOpExpresion (removeWhiteSpaces s)) = 2 \<Longrightarrow>
         TimeIndependent_fromString sv s vars =
           sum_of_two
             (TimeIndependent_fromString sv (UnwrapOpExpresion (removeWhiteSpaces s) ! 0) vars)
             (TimeIndependent_fromString sv (UnwrapOpExpresion (removeWhiteSpaces s) ! 1) vars)"
    and "removeWhiteSpaces s \<noteq> [] \<Longrightarrow> last (removeWhiteSpaces s) \<noteq> CHR '')'' \<Longrightarrow>
         TimeIndependent_fromString sv s vars =
           product_term sv TimeIndependentTerm (removeWhiteSpaces s) vars"
  using assms
  by (subst TimeIndependent_fromString.simps,
      simp add: Let_def del: TimeIndependent_fromString.simps)+

lemma TimeDependent_steps:
  assumes "find_str ''||'' (removeWhiteSpaces s) = Some sep"
  shows "\<not> valid_channel (toUpperCase (drop (sep + 2) (removeWhiteSpaces s))) \<Longrightarrow>
         TimeDependent_fromString sv s vars = Inr None"
    and "valid_channel (toUpperCase (drop (sep + 2) (removeWhiteSpaces s))) \<Longrightarrow>
         take sep (removeWhiteSpaces s) = [] \<Longrightarrow>
         TimeDependent_fromString sv s vars = Inl UndefinedBehaviour"
    and "take sep (removeWhiteSpaces s) \<noteq> [] \<Longrightarrow>
         last (take sep (removeWhiteSpaces s)) = CHR '')'' \<Longrightarrow>
         length (UnwrapOpExpresion (take sep (removeWhiteSpaces s))) \<noteq> 2 \<Longrightarrow>
         TimeDependent_fromString sv s vars = Inr None"
    and "valid_channel (toUpperCase (drop (sep + 2) (removeWhiteSpaces s))) \<Longrightarrow>
         take sep (removeWhiteSpaces s) \<noteq> [] \<Longrightarrow>
         last (take sep (removeWhiteSpaces s)) = CHR '')'' \<Longrightarrow>
         length (UnwrapOpExpresion (take sep (removeWhiteSpaces s))) = 2 \<Longrightarrow>
         TimeDependent_fromString sv s vars =
           sum_of_two
             (TimeDependent_fromString sv
                (UnwrapOpExpresion (take sep (removeWhiteSpaces s)) ! 0
                   @ drop sep (removeWhiteSpaces s)) vars)
             (TimeDependent_fromString sv
                (UnwrapOpExpresion (take sep (removeWhiteSpaces s)) ! 1
                   @ drop sep (removeWhiteSpaces s)) vars)"
    and "valid_channel (toUpperCase (drop (sep + 2) (removeWhiteSpaces s))) \<Longrightarrow>
         take sep (removeWhiteSpaces s) \<noteq> [] \<Longrightarrow>
         last (take sep (removeWhiteSpaces s)) \<noteq> CHR '')'' \<Longrightarrow>
         TimeDependent_fromString sv s vars =
           product_term sv
             (TimeDependentTerm (toUpperCase (drop (sep + 2) (removeWhiteSpaces s))))
             (take sep (removeWhiteSpaces s)) vars"
  using assms
  by (subst TimeDependent_fromString.simps,
      simp add: Let_def del: TimeDependent_fromString.simps)+

lemma bad_product_TimeIndependent:
  assumes "bad_product sv (removeWhiteSpaces s)" and "TryEvaluateExpression sv [] vars = None"
  shows "TimeIndependent_fromString sv s vars \<noteq> Inr (Some t)"
proof (cases "find_str ''||'' (removeWhiteSpaces s)")
  case (Some sep)
  then show ?thesis using either_null(1)[of s sv vars] by (simp del: TimeDependent_fromString.simps TimeIndependent_fromString.simps)
next
  case None
  show ?thesis
  proof (cases "removeWhiteSpaces s = []")
    case True
    from TimeIndependent_steps(1)[OF None True, of sv vars] show ?thesis by (simp del: TimeDependent_fromString.simps TimeIndependent_fromString.simps)
  next
    case False
    then have l: "last (removeWhiteSpaces s) \<noteq> CHR '')''"
      and o: "\<not> ends_with_operator sv (removeWhiteSpaces s)"
      using assms(1) by (auto simp: bad_product_def)
    show ?thesis
      using TimeIndependent_steps(4)[OF None False l, of sv vars]
        product_term_no_operator[OF o assms(2), of TimeIndependentTerm]
      by (simp del: TimeDependent_fromString.simps TimeIndependent_fromString.simps)
  qed
qed

lemma bad_product_TimeDependent:
  assumes "find_str ''||'' (removeWhiteSpaces s) = Some sep"
    and "bad_product sv (take sep (removeWhiteSpaces s))"
    and "TryEvaluateExpression sv [] vars = None"
  shows "TimeDependent_fromString sv s vars \<noteq> Inr (Some t)"
proof (cases "valid_channel (toUpperCase (drop (sep + 2) (removeWhiteSpaces s)))")
  case False
  from TimeDependent_steps(1)[OF assms(1) False, of sv vars] show ?thesis by (simp del: TimeDependent_fromString.simps TimeIndependent_fromString.simps)
next
  case True
  show ?thesis
  proof (cases "take sep (removeWhiteSpaces s) = []")
    case e: True
    show ?thesis using TimeDependent_steps(2)[OF assms(1) True e, of sv vars] by (simp del: TimeDependent_fromString.simps TimeIndependent_fromString.simps)
  next
    case False
    then have l: "last (take sep (removeWhiteSpaces s)) \<noteq> CHR '')''"
      and o: "\<not> ends_with_operator sv (take sep (removeWhiteSpaces s))"
      using assms(2) by (auto simp: bad_product_def)
    show ?thesis
      using TimeDependent_steps(5)[OF assms(1) True False l, of sv vars]
        product_term_no_operator[OF o assms(3)]
      by (simp del: TimeDependent_fromString.simps TimeIndependent_fromString.simps)
  qed
qed

text \<open>The same for a text followed by a separator, wherever the first separator is.\<close>

lemma bad_product_channel:
  assumes "bad_product sv y" and "TryEvaluateExpression sv [] vars = None"
    and ws: "removeWhiteSpaces (y @ ''||'' @ r) = y @ ''||'' @ r"
  shows "TimeDependent_fromString sv (y @ ''||'' @ r) vars \<noteq> Inr (Some t)"
proof -
  from find_str_first[of y r] obtain k where kl: "k \<le> length y"
    and k: "find_str ''||'' (y @ ''||'' @ r) = Some k" by blast
  show ?thesis
  proof (cases "k < length y")
    case True
    from TimeDependent_early_bar[OF ws k True, of sv vars] show ?thesis by (simp del: TimeDependent_fromString.simps TimeIndependent_fromString.simps)
  next
    case False
    then have ke: "k = length y" using kl by simp
    have k': "find_str ''||'' (removeWhiteSpaces (y @ ''||'' @ r)) = Some k"
      unfolding ws by (rule k)
    have "take k (removeWhiteSpaces (y @ ''||'' @ r)) = y" unfolding ws by (simp add: ke)
    then have "bad_product sv (take k (removeWhiteSpaces (y @ ''||'' @ r)))"
      using assms(1) by simp
    from bad_product_TimeDependent[OF k' this assms(2)] show ?thesis .
  qed
qed

lemma text_rejected:
  assumes "rejected_text sv vars (removeWhiteSpaces s)"
  shows "TimeIndependent_fromString sv s vars \<noteq> Inr (Some t)"
    and "TimeDependent_fromString sv s vars \<noteq> Inr (Some t)"
proof -
  let ?e = "removeWhiteSpaces s"
  let ?x = "expression_part ?e"
  note DEL = TimeDependent_fromString.simps TimeIndependent_fromString.simps
  have ws: "\<forall>c\<in>set ?e. \<not> isspace c" by (simp add: removeWhiteSpaces_no_space)
  from assms consider
      (channel) "malformed_channel ?e"
    | (empty) "?x = []"
    | (closing) "?x \<noteq> []" "last ?x = CHR '')''" "\<not> closing_group ?x"
    | (product) "TryEvaluateExpression sv [] vars = None" "bad_product sv ?x"
    | (grouped) c A pm B where "TryEvaluateExpression sv [] vars = None" "group_split ?x c A pm B"
        "bad_product sv (c @ A) \<or> bad_product sv (''('' @ [pm] @ ''1.0)*'' @ c @ B)"
    | (unbalanced) "engine_rejects_unbalanced sv vars" "\<not> balanced ?x"
    unfolding rejected_text_def Let_def by (cases "?x = []") auto
  then have "TimeIndependent_fromString sv s vars \<noteq> Inr (Some t) \<and>
             TimeDependent_fromString sv s vars \<noteq> Inr (Some t)"
  proof cases
    case channel
    then obtain sep where sep: "find_str ''||'' ?e = Some sep"
      and ch: "\<not> channel_name (drop (sep + 2) ?e)"
      by (auto simp: malformed_channel_def channel_part_def split: option.splits)
    have "TimeIndependent_fromString sv s vars = Inr None"
      using sep by (intro either_null(1)) simp
    moreover have "TimeDependent_fromString sv s vars = Inr None"
      using TimeDependent_steps(1)[OF sep] ch valid_channel_name by blast
    ultimately show ?thesis by (simp del: DEL)
  next
    case empty
    show ?thesis
    proof (cases "find_str ''||'' ?e")
      case None
      then have "?e = []" using empty by (simp add: expression_part_def)
      from TimeIndependent_steps(1)[OF None this, of sv vars] either_null(2)[OF None, of sv vars]
      show ?thesis by (simp del: DEL)
    next
      case (Some sep)
      then have x: "take sep ?e = []" using empty by (simp add: expression_part_def)
      have "TimeIndependent_fromString sv s vars = Inr None"
        using Some by (intro either_null(1)) simp
      moreover have "TimeDependent_fromString sv s vars \<noteq> Inr (Some t)"
        using TimeDependent_steps(1)[OF Some, of sv vars] TimeDependent_steps(2)[OF Some _ x, of sv vars]
        by (cases "valid_channel (toUpperCase (drop (sep + 2) ?e))") (simp_all del: DEL)
      ultimately show ?thesis by (simp del: DEL)
    qed
  next
    case closing
    show ?thesis
    proof (cases "find_str ''||'' ?e")
      case None
      then have x: "?x = ?e" by (simp add: expression_part_def)
      have "length (UnwrapOpExpresion ?e) \<noteq> 2"
        using closing(3) closing_group_unwrap[of ?e] unfolding x by blast
      from TimeIndependent_steps(2)[OF None _ _ this, of sv vars] closing(1,2)
        either_null(2)[OF None, of sv vars]
      show ?thesis unfolding x by (simp del: DEL)
    next
      case (Some sep)
      then have x: "?x = take sep ?e" by (simp add: expression_part_def)
      have "TimeIndependent_fromString sv s vars = Inr None"
        using Some by (intro either_null(1)) simp
      moreover have "length (UnwrapOpExpresion (take sep ?e)) \<noteq> 2"
        using closing(3) closing_group_unwrap[of "take sep ?e"] unfolding x by blast
      then have "TimeDependent_fromString sv s vars = Inr None"
        using TimeDependent_steps(3)[OF Some, of sv vars] closing(1,2) unfolding x by blast
      ultimately show ?thesis by (simp del: DEL)
    qed
  next
    case product
    show ?thesis
    proof (cases "find_str ''||'' ?e")
      case None
      then have x: "?x = ?e" by (simp add: expression_part_def)
      from bad_product_TimeIndependent[OF product(2)[unfolded x] product(1), of t]
        either_null(2)[OF None, of sv vars]
      show ?thesis by (simp del: DEL)
    next
      case (Some sep)
      then have x: "?x = take sep ?e" by (simp add: expression_part_def)
      have "TimeIndependent_fromString sv s vars = Inr None"
        using Some by (intro either_null(1)) simp
      with bad_product_TimeDependent[OF Some product(2)[unfolded x] product(1), of t]
      show ?thesis by (simp del: DEL)
    qed
  next
    case grouped
    note u = UnwrapOpExpresion_split[OF grouped(2)]
    have two: "length (UnwrapOpExpresion ?x) = 2" by (simp add: u)
    have xs: "?x \<noteq> []" "last ?x = CHR '')''"
      using grouped(2) by (auto simp: group_split_def)
    let ?y1 = "c @ A" and ?y2 = "''('' @ [pm] @ ''1.0)*'' @ c @ B"
    have u0: "UnwrapOpExpresion ?x ! 0 = ?y1" and u1: "UnwrapOpExpresion ?x ! 1 = ?y2"
      by (simp_all add: u)
    show ?thesis
    proof (cases "find_str ''||'' ?e")
      case None
      then have x: "?x = ?e" by (simp add: expression_part_def)
      have wsx: "\<forall>c\<in>set (?x @ []). \<not> isspace c" using ws by (simp add: x)
      have c1: "removeWhiteSpaces ?y1 = ?y1" and c2: "removeWhiteSpaces ?y2 = ?y2"
        using unwrap_no_space[OF two wsx] unfolding u0 u1 by simp_all
      have step: "TimeIndependent_fromString sv s vars =
          sum_of_two (TimeIndependent_fromString sv ?y1 vars)
                     (TimeIndependent_fromString sv ?y2 vars)"
        using TimeIndependent_steps(3)[OF None xs(1)[unfolded x] xs(2)[unfolded x] two[unfolded x],
            of sv vars]
        unfolding u0[unfolded x] u1[unfolded x] .
      have "TimeIndependent_fromString sv ?y1 vars \<noteq> Inr (Some t1) \<or>
            TimeIndependent_fromString sv ?y2 vars \<noteq> Inr (Some t2)" for t1 t2
        using grouped(3)
          bad_product_TimeIndependent[of sv ?y1 vars t1, unfolded c1, OF _ grouped(1)]
          bad_product_TimeIndependent[of sv ?y2 vars t2, unfolded c2, OF _ grouped(1)]
        by blast
      then have "TimeIndependent_fromString sv s vars \<noteq> Inr (Some t)"
        unfolding step using sum_of_two_term by blast
      with either_null(2)[OF None, of sv vars] show ?thesis by (simp del: DEL)
    next
      case (Some sep)
      then have x: "?x = take sep ?e" by (simp add: expression_part_def)
      have TI: "TimeIndependent_fromString sv s vars = Inr None"
        using Some by (intro either_null(1)) simp
      from find_str_Some[OF Some] have "prefix ''||'' (drop sep ?e)" by simp
      then obtain r where r: "drop sep ?e = ''||'' @ r" by (auto simp: prefix_def)
      have wsx: "\<forall>c\<in>set (?x @ drop sep ?e). \<not> isspace c"
        using ws by (simp add: x)
      have c1: "removeWhiteSpaces (?y1 @ ''||'' @ r) = ?y1 @ ''||'' @ r"
        and c2: "removeWhiteSpaces (?y2 @ ''||'' @ r) = ?y2 @ ''||'' @ r"
        using unwrap_no_space[OF two wsx] unfolding u0 u1 r by simp_all
      have "TimeDependent_fromString sv s vars \<noteq> Inr (Some t)"
      proof (cases "valid_channel (toUpperCase (drop (sep + 2) ?e))")
        case False
        from TimeDependent_steps(1)[OF Some False, of sv vars] show ?thesis by (simp del: DEL)
      next
        case True
        have step: "TimeDependent_fromString sv s vars =
            sum_of_two (TimeDependent_fromString sv (?y1 @ ''||'' @ r) vars)
                       (TimeDependent_fromString sv (?y2 @ ''||'' @ r) vars)"
          using TimeDependent_steps(4)[OF Some True xs(1)[unfolded x] xs(2)[unfolded x]
              two[unfolded x], of sv vars]
          unfolding u0[unfolded x] u1[unfolded x] r .
        have "TimeDependent_fromString sv (?y1 @ ''||'' @ r) vars \<noteq> Inr (Some t1) \<or>
              TimeDependent_fromString sv (?y2 @ ''||'' @ r) vars \<noteq> Inr (Some t2)" for t1 t2
          using grouped(3)
            bad_product_channel[of sv ?y1 vars r t1, OF _ grouped(1) c1]
            bad_product_channel[of sv ?y2 vars r t2, OF _ grouped(1) c2]
          by blast
        then show ?thesis unfolding step using sum_of_two_term by blast
      qed
      with TI show ?thesis by (simp del: DEL)
    qed
  next
    case unbalanced
    show ?thesis
    proof (cases "find_str ''||'' ?e")
      case None
      then have x: "?x = ?e" by (simp add: expression_part_def)
      from TimeIndependent_unbalanced[OF unbalanced(1), of s t] unbalanced(2)
        either_null(2)[OF None, of sv vars]
      show ?thesis unfolding x by (simp del: DEL)
    next
      case (Some sep)
      then have x: "?x = take sep ?e" by (simp add: expression_part_def)
      have "TimeIndependent_fromString sv s vars = Inr None"
        using Some by (intro either_null(1)) simp
      with TimeDependent_unbalanced[OF unbalanced(1) Some, of t] unbalanced(2)
      show ?thesis unfolding x by (simp del: DEL)
    qed
  qed
  then show "TimeIndependent_fromString sv s vars \<noteq> Inr (Some t)"
    and "TimeDependent_fromString sv s vars \<noteq> Inr (Some t)" by simp_all
qed

lemma plain_rejected:
  assumes plain: "\<not> prefix ''_SUM['' (removeWhiteSpaces s) \<or> last (removeWhiteSpaces s) \<noteq> CHR '']''"
    and x: "x = expression_part (removeWhiteSpaces s)"
  shows "malformed_channel (removeWhiteSpaces s) \<Longrightarrow> tryParse sv s vars = Inr None"
    and "x \<noteq> [] \<Longrightarrow> last x = CHR '')'' \<Longrightarrow> \<not> closing_group x \<Longrightarrow> tryParse sv s vars = Inr None"
    and "x \<noteq> [] \<Longrightarrow> last x \<noteq> CHR '')'' \<Longrightarrow> \<not> ends_with_operator sv x
           \<Longrightarrow> TryEvaluateExpression sv [] vars = None \<Longrightarrow> tryParse sv s vars = Inr None"
    and "\<not> balanced x \<Longrightarrow> engine_rejects_unbalanced sv vars \<Longrightarrow> tryParse sv s vars \<noteq> Inr (Some t)"
proof -
  let ?e = "removeWhiteSpaces s"
  note S = plain_not_sum[OF plain, of sv vars]
  have "(malformed_channel ?e \<longrightarrow> tryParse sv s vars = Inr None) \<and>
        (x \<noteq> [] \<and> last x = CHR '')'' \<and> \<not> closing_group x \<longrightarrow> tryParse sv s vars = Inr None) \<and>
        (x \<noteq> [] \<and> last x \<noteq> CHR '')'' \<and> \<not> ends_with_operator sv x \<and>
           TryEvaluateExpression sv [] vars = None \<longrightarrow> tryParse sv s vars = Inr None) \<and>
        (\<not> balanced x \<and> engine_rejects_unbalanced sv vars \<longrightarrow> tryParse sv s vars \<noteq> Inr (Some t))"
  proof (cases "find_str ''||'' ?e")
    case None
    have TD: "TimeDependent_fromString sv s vars = Inr None"
      using None by (rule either_null(2))
    have tp: "tryParse sv s vars = TimeIndependent_fromString sv s vars"
      unfolding tryParse_def S TD by simp
    have xe: "x = ?e" by (simp add: x expression_part_def None)
    have c1: "\<not> malformed_channel ?e"
      by (simp add: malformed_channel_def channel_part_def None)
    have c2: "TimeIndependent_fromString sv s vars = Inr None"
      if "x \<noteq> []" "last x = CHR '')''" "\<not> closing_group x"
    proof -
      have "length (UnwrapOpExpresion ?e) \<noteq> 2" using that(3) closing_group_unwrap xe by auto
      then show ?thesis
        using that(1,2) None unfolding xe
        by (subst TimeIndependent_fromString.simps)
           (simp add: Let_def del: TimeIndependent_fromString.simps)
    qed
    have c3: "TimeIndependent_fromString sv s vars = Inr None"
      if "x \<noteq> []" "last x \<noteq> CHR '')''" "\<not> ends_with_operator sv x"
        "TryEvaluateExpression sv [] vars = None"
    proof -
      have "TimeIndependent_fromString sv s vars = product_term sv TimeIndependentTerm ?e vars"
        using that(1,2) None unfolding xe
        by (subst TimeIndependent_fromString.simps)
           (simp add: Let_def del: TimeIndependent_fromString.simps)
      then show ?thesis using product_term_no_operator[OF that(3,4)] by (simp add: xe)
    qed
    have c4: "TimeIndependent_fromString sv s vars \<noteq> Inr (Some t)"
      if "\<not> balanced x" "engine_rejects_unbalanced sv vars"
      using TimeIndependent_unbalanced[OF that(2)] that(1) unfolding xe by blast
    show ?thesis unfolding tp using c1 c2 c3 c4 by blast
  next
    case (Some sep)
    have TI: "TimeIndependent_fromString sv s vars = Inr None"
      using Some by (intro either_null(1)) simp
    have tp: "tryParse sv s vars = TimeDependent_fromString sv s vars"
      unfolding tryParse_def S TI
      by (simp del: TimeDependent_fromString.simps split: sum.splits option.splits)
    have xe: "x = take sep ?e" by (simp add: x expression_part_def Some)
    let ?ch = "toUpperCase (drop (sep + 2) ?e)"
    have bad: "TimeDependent_fromString sv s vars = Inr None" if "\<not> valid_channel ?ch"
      using that Some
      by (subst TimeDependent_fromString.simps)
         (simp add: Let_def del: TimeDependent_fromString.simps)
    have c1: "TimeDependent_fromString sv s vars = Inr None" if "malformed_channel ?e"
    proof -
      from that have "\<not> channel_name (drop (sep + 2) ?e)"
        by (simp add: malformed_channel_def channel_part_def Some)
      then show ?thesis using bad valid_channel_name by blast
    qed
    have c2: "TimeDependent_fromString sv s vars = Inr None"
      if "x \<noteq> []" "last x = CHR '')''" "\<not> closing_group x"
    proof (cases "valid_channel ?ch")
      case False
      then show ?thesis by (rule bad)
    next
      case True
      have "length (UnwrapOpExpresion (take sep ?e)) \<noteq> 2"
        using that(3) closing_group_unwrap xe by auto
      then show ?thesis
        using that(1,2) Some True unfolding xe
        by (subst TimeDependent_fromString.simps)
           (simp add: Let_def del: TimeDependent_fromString.simps)
    qed
    have c3: "TimeDependent_fromString sv s vars = Inr None"
      if "x \<noteq> []" "last x \<noteq> CHR '')''" "\<not> ends_with_operator sv x"
        "TryEvaluateExpression sv [] vars = None"
    proof (cases "valid_channel ?ch")
      case False
      then show ?thesis by (rule bad)
    next
      case True
      have "TimeDependent_fromString sv s vars
              = product_term sv (TimeDependentTerm ?ch) (take sep ?e) vars"
        using that(1,2) Some True unfolding xe
        by (subst TimeDependent_fromString.simps)
           (simp add: Let_def del: TimeDependent_fromString.simps)
      then show ?thesis using product_term_no_operator[OF that(3,4)] by (simp add: xe)
    qed
    have c4: "TimeDependent_fromString sv s vars \<noteq> Inr (Some t)"
      if "\<not> balanced x" "engine_rejects_unbalanced sv vars"
      using TimeDependent_unbalanced[OF that(2) Some] that(1) unfolding xe by blast
    show ?thesis unfolding tp using c1 c2 c3 c4 by blast
  qed
  then show "malformed_channel (removeWhiteSpaces s) \<Longrightarrow> tryParse sv s vars = Inr None"
    and "x \<noteq> [] \<Longrightarrow> last x = CHR '')'' \<Longrightarrow> \<not> closing_group x \<Longrightarrow> tryParse sv s vars = Inr None"
    and "x \<noteq> [] \<Longrightarrow> last x \<noteq> CHR '')'' \<Longrightarrow> \<not> ends_with_operator sv x
           \<Longrightarrow> TryEvaluateExpression sv [] vars = None \<Longrightarrow> tryParse sv s vars = Inr None"
    and "\<not> balanced x \<Longrightarrow> engine_rejects_unbalanced sv vars \<Longrightarrow> tryParse sv s vars \<noteq> Inr (Some t)"
    by blast+
qed

lemma plain_no_term:
  assumes plain: "\<not> prefix ''_SUM['' (removeWhiteSpaces s) \<or> last (removeWhiteSpaces s) \<noteq> CHR '']''"
    and bad: "rejected_text sv vars (removeWhiteSpaces s)"
  shows "tryParse sv s vars \<noteq> Inr (Some t)"
  using text_rejected[OF bad, of _] plain_not_sum[OF plain, of sv vars]
  unfolding tryParse_def
  by (auto simp del: TimeDependent_fromString.simps TimeIndependent_fromString.simps
      split: sum.splits option.splits)

lemma sum_loop_all:
  "sum_loop body i e acc = Inr ts \<Longrightarrow> i \<le> k \<Longrightarrow> k \<le> e \<Longrightarrow> \<exists>t. body k = Inr (Some t)"
proof (induction "Suc e - i" arbitrary: i acc)
  case 0
  then show ?case by simp
next
  case (Suc n)
  then have le: "i \<le> e" by simp
  from Suc.prems(1) le obtain t where t: "body i = Inr (Some t)"
    and ni: "i \<noteq> INT_MAX"
    and rest: "sum_loop body (i + 1) e (acc @ [t]) = Inr ts"
    by (subst (asm) sum_loop.simps)
       (auto simp del: sum_loop.simps split: sum.splits option.splits if_splits)
  show ?case
  proof (cases "k = i")
    case True
    then show ?thesis using t by blast
  next
    case False
    then have "i + 1 \<le> k" using Suc.prems(2) by simp
    moreover have "n = Suc e - (i + 1)" using Suc.hyps(2) by simp
    ultimately show ?thesis using Suc.hyps(1)[OF _ rest _ Suc.prems(3)] by blast
  qed
qed

lemma whole_sum_null:
  assumes "removeWhiteSpaces s \<noteq> []" and "last (removeWhiteSpaces s) = CHR '']''"
    and "TryEvaluateExpression sv [] vars = None"
  shows "TimeDependent_fromString sv s vars = Inr None"
    and "TimeIndependent_fromString sv s vars = Inr None"
  using TimeDependent_bracket[OF assms(2)] TimeIndependent_bracket[OF assms]
  by blast+

lemma unroll_sum_rejected:
  assumes pieces: "body = render ps @ tl_text" "templates_closed ps tl_text"
    and ws: "\<forall>c\<in>set body. \<not> isspace c"
    and order: "iterates_all sv"
    and k: "dec_val a \<le> k" "k \<le> dec_val b"
    and bad: "\<forall>vals. agrees sv v (int k) ps vals \<longrightarrow> rejected_text sv vars (fill vals ps @ tl_text)"
  shows "unroll_sum sv v a b body vars \<noteq> Inr (Some t)"
proof
  let ?fmt = "''{'' @ v @ ''}''"
  assume u: "unroll_sum sv v a b body vars = Inr (Some t)"
  have "\<exists>td ts. sum_loop (loop_body sv td ?fmt body v vars) (dec_val a) (dec_val b) [] = Inr ts"
    using u unfolding unroll_sum_def Let_def stoi_def
    by (auto simp del: TimeDependent_fromString.simps TimeIndependent_fromString.simps
          sum_loop.simps
        split: if_splits sum.splits option.splits)
  then obtain td ts where
    "sum_loop (loop_body sv td ?fmt body v vars) (dec_val a) (dec_val b) [] = Inr ts" by blast
  from sum_loop_all[OF this k] obtain t' where
    t': "loop_body sv td ?fmt body v vars k = Inr (Some t')" by blast
  then obtain r where r: "resolveLoopTemplate sv ?fmt body v (int k) = Inr r"
    and p: "parseLoopExpression sv td r vars = Inr (Some t')"
    unfolding loop_body_def by (auto split: sum.splits)
  from resolve_fill[OF pieces(2) order r[unfolded pieces(1)]] obtain vals where
    a: "agrees sv v (int k) ps vals" and f: "r = fill vals ps @ tl_text" by blast
  have clean: "removeWhiteSpaces r = r"
    unfolding f using ws unfolding pieces(1) by (rule filled_text)
  from bad a have "rejected_text sv vars r" unfolding f by blast
  then have "rejected_text sv vars (removeWhiteSpaces r)" by (simp only: clean)
  from text_rejected[OF this, of t'] p show False
    by (auto simp: parseLoopExpression_def
        simp del: TimeDependent_fromString.simps TimeIndependent_fromString.simps
        split: if_splits)
qed

lemma sum_rejected:
  assumes form: "removeWhiteSpaces s = ''_SUM['' @ v @ '','' @ a @ '','' @ b @ '','' @ body @ '']''"
    and commas: "CHR '','' \<notin> set v" "CHR '','' \<notin> set a" "CHR '','' \<notin> set b"
    and pieces: "body = render ps @ tl_text" "templates_closed ps tl_text"
    and order: "iterates_all sv"
    and empty: "TryEvaluateExpression sv [] vars = None"
    and k: "dec_val a \<le> k" "k \<le> dec_val b"
    and bad: "\<forall>vals. agrees sv v (int k) ps vals \<longrightarrow> rejected_text sv vars (fill vals ps @ tl_text)"
  shows "tryParse sv s vars \<noteq> Inr (Some t)"
proof -
  have eq: "Sum_fromString sv s vars = unroll_sum sv v a b body vars"
    using form commas by (rule Sum_fromString_form)
  have ws: "\<forall>c\<in>set body. \<not> isspace c"
    using body_no_space[of s "''_SUM['' @ v @ '','' @ a @ '','' @ b @ '',''" body "'']''"] form
    by simp
  have S: "Sum_fromString sv s vars \<noteq> Inr (Some t)"
    unfolding eq by (rule unroll_sum_rejected[OF pieces ws order k bad])
  have ne: "removeWhiteSpaces s \<noteq> []" and l: "last (removeWhiteSpaces s) = CHR '']''"
    by (simp_all add: form)
  note W = whole_sum_null[OF ne l empty]
  show ?thesis
    using S unfolding tryParse_def W
    by (auto split: sum.splits option.splits)
qed

lemma rejected_textI:
  "malformed_channel e \<Longrightarrow> rejected_text sv vars e"
  "expression_part e = [] \<Longrightarrow> rejected_text sv vars e"
  "last (expression_part e) = CHR '')'' \<Longrightarrow> \<not> closing_group (expression_part e)
     \<Longrightarrow> rejected_text sv vars e"
  "TryEvaluateExpression sv [] vars = None \<Longrightarrow> bad_product sv (expression_part e)
     \<Longrightarrow> rejected_text sv vars e"
  "TryEvaluateExpression sv [] vars = None \<Longrightarrow> group_split (expression_part e) c A pm B
     \<Longrightarrow> bad_product sv (c @ A) \<or> bad_product sv (''('' @ [pm] @ ''1.0)*'' @ c @ B)
     \<Longrightarrow> rejected_text sv vars e"
  "engine_rejects_unbalanced sv vars \<Longrightarrow> \<not> balanced (expression_part e)
     \<Longrightarrow> rejected_text sv vars e"
  unfolding rejected_text_def Let_def by blast+

lemma agrees_bare: "agrees sv v k ps vals \<Longrightarrow> Tmpl v \<in> set ps \<Longrightarrow> vals v = k"
  by (simp add: agrees_def loop_value_def)

text \<open>
  Claim C8. Let \<open>e\<close> be the input without white space.

  For \<open>e\<close> not of the form \<open>_SUM[...]\<close>, with \<open>x\<close> its expression (the text up to the
  first \<open>||\<close>), the parser returns no term in each failure case of \<open>rejected_text\<close>:
  the text after the first \<open>||\<close> is not \<open>D\<close> or \<open>U\<close> (in either case) followed by at
  least one digit; \<open>x\<close> is empty; \<open>x\<close> ends with a closing parenthesis that closes no
  group free of parentheses (an unmatched closing parenthesis, or a sum nested in the last
  group); \<open>x\<close>, or one of the two products its final group \<open>c(A+B)\<close> is distributed
  into, does not end with a known operator followed by the digits of a site, the engine
  rejecting the empty text; the parentheses of \<open>x\<close> are not balanced, the engine
  rejecting the empty text and every text with unbalanced parentheses. In the first case,
  in the third and in the fourth for \<open>x\<close> itself, the result is exactly null.

  For \<open>e = _SUM[v,a,b,body]\<close>, \<open>body\<close> being literal texts and templates without an
  opening brace in a content, the parser returns no term when for some loop value from
  \<open>a\<close> to \<open>b\<close> the body with its templates replaced by their numerals is such a
  failure case, whatever numeral stands for a template that has no value; the engine
  rejects the empty text.
\<close>

theorem malformed_input_rejected:
  assumes "e = removeWhiteSpaces in_expr" and "x = expression_part e"
  shows "((\<not> prefix ''_SUM['' e \<or> last e \<noteq> CHR '']'') \<and> rejected_text sv in_vars e
            \<longrightarrow> (\<forall>t. tryParse sv in_expr in_vars \<noteq> Inr (Some t))) \<and>
         ((\<not> prefix ''_SUM['' e \<or> last e \<noteq> CHR '']'') \<and>
          (malformed_channel e \<or>
           (x \<noteq> [] \<and> last x = CHR '')'' \<and> \<not> closing_group x) \<or>
           (x \<noteq> [] \<and> last x \<noteq> CHR '')'' \<and> \<not> ends_with_operator sv x \<and>
            TryEvaluateExpression sv [] in_vars = None))
            \<longrightarrow> tryParse sv in_expr in_vars = Inr None) \<and>
         (e = ''_SUM['' @ v @ '','' @ a @ '','' @ b @ '','' @ (render ps @ tl_text) @ '']'' \<and>
          CHR '','' \<notin> set v \<and> CHR '','' \<notin> set a \<and> CHR '','' \<notin> set b \<and>
          templates_closed ps tl_text \<and> iterates_all sv \<and>
          TryEvaluateExpression sv [] in_vars = None \<and>
          dec_val a \<le> k \<and> k \<le> dec_val b \<and>
          (\<forall>vals. agrees sv v (int k) ps vals
             \<longrightarrow> rejected_text sv in_vars (fill vals ps @ tl_text))
            \<longrightarrow> (\<forall>t. tryParse sv in_expr in_vars \<noteq> Inr (Some t)))"
proof (intro conjI impI)
  assume a: "(\<not> prefix ''_SUM['' e \<or> last e \<noteq> CHR '']'') \<and> rejected_text sv in_vars e"
  then have plain: "\<not> prefix ''_SUM['' (removeWhiteSpaces in_expr) \<or>
      last (removeWhiteSpaces in_expr) \<noteq> CHR '']''"
    and bad: "rejected_text sv in_vars (removeWhiteSpaces in_expr)"
    using assms(1) by simp_all
  show "\<forall>t. tryParse sv in_expr in_vars \<noteq> Inr (Some t)"
    using plain_no_term[OF plain bad] by blast
next
  assume a: "(\<not> prefix ''_SUM['' e \<or> last e \<noteq> CHR '']'') \<and>
          (malformed_channel e \<or>
           (x \<noteq> [] \<and> last x = CHR '')'' \<and> \<not> closing_group x) \<or>
           (x \<noteq> [] \<and> last x \<noteq> CHR '')'' \<and> \<not> ends_with_operator sv x \<and>
            TryEvaluateExpression sv [] in_vars = None))"
  then have plain: "\<not> prefix ''_SUM['' (removeWhiteSpaces in_expr) \<or>
      last (removeWhiteSpaces in_expr) \<noteq> CHR '']''"
    using assms(1) by simp
  have x: "x = expression_part (removeWhiteSpaces in_expr)" using assms by simp
  from a consider "malformed_channel (removeWhiteSpaces in_expr)"
    | "x \<noteq> []" "last x = CHR '')''" "\<not> closing_group x"
    | "x \<noteq> []" "last x \<noteq> CHR '')''" "\<not> ends_with_operator sv x"
      "TryEvaluateExpression sv [] in_vars = None"
    using assms(1) by (cases "x = []") auto
  then show "tryParse sv in_expr in_vars = Inr None"
  proof cases
    case 1
    then show ?thesis by (rule plain_rejected(1)[OF plain x])
  next
    case 2
    then show ?thesis by (rule plain_rejected(2)[OF plain x])
  next
    case 3
    then show ?thesis by (rule plain_rejected(3)[OF plain x])
  qed
next
  assume a: "e = ''_SUM['' @ v @ '','' @ a @ '','' @ b @ '','' @ (render ps @ tl_text) @ '']'' \<and>
          CHR '','' \<notin> set v \<and> CHR '','' \<notin> set a \<and> CHR '','' \<notin> set b \<and>
          templates_closed ps tl_text \<and> iterates_all sv \<and>
          TryEvaluateExpression sv [] in_vars = None \<and>
          dec_val a \<le> k \<and> k \<le> dec_val b \<and>
          (\<forall>vals. agrees sv v (int k) ps vals
             \<longrightarrow> rejected_text sv in_vars (fill vals ps @ tl_text))"
  then have form: "removeWhiteSpaces in_expr =
      ''_SUM['' @ v @ '','' @ a @ '','' @ b @ '','' @ (render ps @ tl_text) @ '']''"
    using assms(1) by simp
  from a have commas: "CHR '','' \<notin> set v" "CHR '','' \<notin> set a" "CHR '','' \<notin> set b"
    and cl: "templates_closed ps tl_text" and order: "iterates_all sv"
    and empty: "TryEvaluateExpression sv [] in_vars = None"
    and k: "dec_val a \<le> k" "k \<le> dec_val b"
    and bad: "\<forall>vals. agrees sv v (int k) ps vals
             \<longrightarrow> rejected_text sv in_vars (fill vals ps @ tl_text)"
    by blast+
  show "\<forall>t. tryParse sv in_expr in_vars \<noteq> Inr (Some t)"
    using sum_rejected[OF form commas refl cl order empty k bad] by blast
qed

theorem malformed_input_rejected_witness:
  "rejected_text demo_services [] ''0.5*(X0+Q0)''
     \<and> (\<forall>t. tryParse demo_services ''0.5*(X0+Q0)'' [] \<noteq> Inr (Some t))
   \<and> rejected_text demo_services [] ''||D0''
     \<and> (\<forall>t. tryParse demo_services ''||D0'' [] \<noteq> Inr (Some t))
   \<and> rejected_text demo_services [] ''0.5*(X0+Y0''
     \<and> (\<forall>t. tryParse demo_services ''0.5*(X0+Y0'' [] \<noteq> Inr (Some t))
   \<and> malformed_channel ''0.5*X0||Q1''
     \<and> tryParse demo_services ''0.5 * X0 || Q1'' [] = Inr None
   \<and> \<not> closing_group ''0.5*X0)''
     \<and> tryParse demo_services ''0.5*X0)'' [] = Inr None
   \<and> \<not> closing_group ''0.5*((X0+Y0)+Z0)''
     \<and> tryParse demo_services ''0.5*((X0+Y0)+Z0)'' [] = Inr None
   \<and> \<not> ends_with_operator demo_services ''0.5*Q0''
     \<and> tryParse demo_services ''0.5*Q0||D0'' [] = Inr None
   \<and> (\<forall>t. tryParse demo_services ''_SUM[i,0,1,1.0*(X{i}]'' [] \<noteq> Inr (Some t))
   \<and> (\<forall>t. tryParse demo_services ''_SUM[i,0,1,0.5*X{i}||Q1]'' [] \<noteq> Inr (Some t))
   \<and> (\<forall>t. tryParse demo_services ''_SUM[i,0,1,0.5*Q{i}]'' [] \<noteq> Inr (Some t))"
proof -
  note [simp del] = TimeDependent_fromString.simps TimeIndependent_fromString.simps
  have id:
    "''0.5*(X0+Q0)'' = removeWhiteSpaces ''0.5*(X0+Q0)''"
    "''||D0'' = removeWhiteSpaces ''||D0''"
    "''0.5*(X0+Y0'' = removeWhiteSpaces ''0.5*(X0+Y0''"
    "''0.5*X0)'' = removeWhiteSpaces ''0.5*X0)''"
    "''0.5*((X0+Y0)+Z0)'' = removeWhiteSpaces ''0.5*((X0+Y0)+Z0)''"
    "''0.5*Q0||D0'' = removeWhiteSpaces ''0.5*Q0||D0''"
    "''_SUM[i,0,1,1.0*(X{i}]'' = removeWhiteSpaces ''_SUM[i,0,1,1.0*(X{i}]''"
    "''_SUM[i,0,1,0.5*X{i}||Q1]'' = removeWhiteSpaces ''_SUM[i,0,1,0.5*X{i}||Q1]''"
    "''_SUM[i,0,1,0.5*Q{i}]'' = removeWhiteSpaces ''_SUM[i,0,1,0.5*Q{i}]''"
    by (simp_all add: removeWhiteSpaces_def isspace_def)
  have e1: "''0.5*X0||Q1'' = removeWhiteSpaces ''0.5 * X0 || Q1''"
    by (simp add: removeWhiteSpaces_def isspace_def)
  have h0: "TryEvaluateExpression demo_services [] [] = None"
    by (rule demo_rejects_empty)
  have hu: "engine_rejects_unbalanced demo_services []" by (rule demo_engine_rejects)
  have x: "expression_part ''0.5*(X0+Q0)'' = ''0.5*(X0+Q0)''"
    "expression_part ''||D0'' = []"
    "expression_part ''0.5*(X0+Y0'' = ''0.5*(X0+Y0''"
    "expression_part ''0.5*X0)'' = ''0.5*X0)''"
    "expression_part ''0.5*((X0+Y0)+Z0)'' = ''0.5*((X0+Y0)+Z0)''"
    "expression_part ''0.5*Q0||D0'' = ''0.5*Q0''"
    "expression_part ''1.0*(X0'' = ''1.0*(X0''"
    "expression_part ''0.5*Q0'' = ''0.5*Q0''"
    by (simp_all add: expression_part_def)
  have bq: "bad_product demo_services ''(+1.0)*0.5*Q0''"
    unfolding bad_product_def GetLastOperator_operator[symmetric] by (simp add: demo_eval)
  have bq0: "\<not> ends_with_operator demo_services ''0.5*Q0''"
    unfolding GetLastOperator_operator[symmetric] by (simp add: demo_eval)
  have gs: "group_split ''0.5*(X0+Q0)'' ''0.5*'' ''X0'' CHR ''+'' ''Q0''"
    by (simp add: group_split_def)
  have r1: "rejected_text demo_services [] ''0.5*(X0+Q0)''"
    using rejected_textI(5)[of demo_services "[]" "''0.5*(X0+Q0)''" "''0.5*''" "''X0''" "CHR ''+''"
        "''Q0''"] h0 gs bq by (simp add: x)
  have r2: "rejected_text demo_services [] ''||D0''"
    by (rule rejected_textI(2)) (simp add: x)
  have r3: "rejected_text demo_services [] ''0.5*(X0+Y0''"
    by (rule rejected_textI(6)[OF hu]) (simp add: x balanced_def)
  have h1: "malformed_channel ''0.5*X0||Q1''"
    by (simp add: malformed_channel_def channel_part_def valid_channel_name[symmetric]
        valid_channel_def toUpperCase_def toupper_def)
  have h2: "\<not> closing_group ''0.5*X0)''"
    by (simp add: closing_group_iff find_last_of_def)
  have h3: "\<not> closing_group ''0.5*((X0+Y0)+Z0)''"
    by (simp add: closing_group_iff find_last_of_def)
  have t1: "\<forall>t. tryParse demo_services ''0.5*(X0+Q0)'' [] \<noteq> Inr (Some t)"
    using malformed_input_rejected[OF id(1) refl,
        where sv = demo_services and in_vars = "[]", THEN conjunct1] r1 by simp
  have t2: "\<forall>t. tryParse demo_services ''||D0'' [] \<noteq> Inr (Some t)"
    using malformed_input_rejected[OF id(2) refl,
        where sv = demo_services and in_vars = "[]", THEN conjunct1] r2 by simp
  have t3: "\<forall>t. tryParse demo_services ''0.5*(X0+Y0'' [] \<noteq> Inr (Some t)"
    using malformed_input_rejected[OF id(3) refl,
        where sv = demo_services and in_vars = "[]", THEN conjunct1] r3 by simp
  have n1: "tryParse demo_services ''0.5 * X0 || Q1'' [] = Inr None"
    using malformed_input_rejected[OF e1 refl, where sv = demo_services and in_vars = "[]",
        THEN conjunct2, THEN conjunct1] h1 by simp
  have n2: "tryParse demo_services ''0.5*X0)'' [] = Inr None"
    using malformed_input_rejected[OF id(4) refl,
        where sv = demo_services and in_vars = "[]", THEN conjunct2, THEN conjunct1] h2
    by (simp add: x)
  have n3: "tryParse demo_services ''0.5*((X0+Y0)+Z0)'' [] = Inr None"
    using malformed_input_rejected[OF id(5) refl,
        where sv = demo_services and in_vars = "[]", THEN conjunct2, THEN conjunct1] h3
    by (simp add: x)
  have n4: "tryParse demo_services ''0.5*Q0||D0'' [] = Inr None"
    using malformed_input_rejected[OF id(6) refl,
        where sv = demo_services and in_vars = "[]", THEN conjunct2, THEN conjunct1] bq0 h0
    by (simp add: x)
  have v0: "vals ''i'' = 0" if "agrees demo_services ''i'' (int 0) ps vals" "Tmpl ''i'' \<in> set ps"
    for vals ps
    using agrees_bare[OF that] by simp
  have dv: "dec_val ''0'' = 0" "dec_val ''1'' = 1" by (simp_all add: dec_val_def)
  have z: "to_string 0 = ''0''" by (simp add: to_string_def)
  have s1: "\<forall>vals. agrees demo_services ''i'' (int 0) [Lit ''1.0*(X'', Tmpl ''i''] vals
      \<longrightarrow> rejected_text demo_services [] (fill vals [Lit ''1.0*(X'', Tmpl ''i''] @ [])"
  proof (intro allI impI)
    fix vals assume "agrees demo_services ''i'' (int 0) [Lit ''1.0*(X'', Tmpl ''i''] vals"
    from v0[OF this] have f: "fill vals [Lit ''1.0*(X'', Tmpl ''i''] @ [] = ''1.0*(X0''"
      by (simp add: z)
    show "rejected_text demo_services [] (fill vals [Lit ''1.0*(X'', Tmpl ''i''] @ [])"
      unfolding f by (rule rejected_textI(6)[OF hu]) (simp add: x balanced_def)
  qed
  have s2: "\<forall>vals. agrees demo_services ''i'' (int 0) [Lit ''0.5*X'', Tmpl ''i'', Lit ''||Q1''] vals
      \<longrightarrow> rejected_text demo_services []
            (fill vals [Lit ''0.5*X'', Tmpl ''i'', Lit ''||Q1''] @ [])"
  proof (intro allI impI)
    fix vals assume "agrees demo_services ''i'' (int 0) [Lit ''0.5*X'', Tmpl ''i'', Lit ''||Q1''] vals"
    from v0[OF this]
    have f: "fill vals [Lit ''0.5*X'', Tmpl ''i'', Lit ''||Q1''] @ [] = ''0.5*X0||Q1''"
      by (simp add: z)
    show "rejected_text demo_services [] (fill vals [Lit ''0.5*X'', Tmpl ''i'', Lit ''||Q1''] @ [])"
      unfolding f by (rule rejected_textI(1)[OF h1])
  qed
  have s3: "\<forall>vals. agrees demo_services ''i'' (int 0) [Lit ''0.5*Q'', Tmpl ''i''] vals
      \<longrightarrow> rejected_text demo_services [] (fill vals [Lit ''0.5*Q'', Tmpl ''i''] @ [])"
  proof (intro allI impI)
    fix vals assume "agrees demo_services ''i'' (int 0) [Lit ''0.5*Q'', Tmpl ''i''] vals"
    from v0[OF this] have f: "fill vals [Lit ''0.5*Q'', Tmpl ''i''] @ [] = ''0.5*Q0''"
      by (simp add: z)
    show "rejected_text demo_services [] (fill vals [Lit ''0.5*Q'', Tmpl ''i''] @ [])"
      unfolding f
      by (rule rejected_textI(4)[OF h0]) (simp add: x bad_product_def bq0)
  qed
  have cl: "templates_closed [Lit ''1.0*(X'', Tmpl ''i''] []"
    "templates_closed [Lit ''0.5*X'', Tmpl ''i'', Lit ''||Q1''] []"
    "templates_closed [Lit ''0.5*Q'', Tmpl ''i''] []"
    by (auto simp: templates_closed_def no_template_def)
  have u1: "\<forall>t. tryParse demo_services ''_SUM[i,0,1,1.0*(X{i}]'' [] \<noteq> Inr (Some t)"
    using malformed_input_rejected[OF id(7) refl,
        where sv = demo_services and in_vars = "[]" and v = "''i''" and a = "''0''" and b = "''1''"
        and ps = "[Lit ''1.0*(X'', Tmpl ''i'']" and tl_text = "[]" and k = 0,
        THEN conjunct2, THEN conjunct2] s1 cl(1) demo_iterates_all h0
    by (simp add: dv)
  have u2: "\<forall>t. tryParse demo_services ''_SUM[i,0,1,0.5*X{i}||Q1]'' [] \<noteq> Inr (Some t)"
    using malformed_input_rejected[OF id(8) refl,
        where sv = demo_services and in_vars = "[]" and v = "''i''" and a = "''0''" and b = "''1''"
        and ps = "[Lit ''0.5*X'', Tmpl ''i'', Lit ''||Q1'']" and tl_text = "[]" and k = 0,
        THEN conjunct2, THEN conjunct2] s2 cl(2) demo_iterates_all h0
    by (simp add: dv)
  have u3: "\<forall>t. tryParse demo_services ''_SUM[i,0,1,0.5*Q{i}]'' [] \<noteq> Inr (Some t)"
    using malformed_input_rejected[OF id(9) refl,
        where sv = demo_services and in_vars = "[]" and v = "''i''" and a = "''0''" and b = "''1''"
        and ps = "[Lit ''0.5*Q'', Tmpl ''i'']" and tl_text = "[]" and k = 0,
        THEN conjunct2, THEN conjunct2] s3 cl(3) demo_iterates_all h0
    by (simp add: dv)
  show ?thesis
    using r1 t1 r2 t2 r3 t3 h1 n1 h2 n2 h3 n3 bq0 n4 u1 u2 u3 by blast
qed

text \<open>
  Claim C8 as stated is about every input with unmatched parentheses. A parenthesis
  inside a brace template of a sum term is outside the cases above: the template
  \<open>{(}\<close> is replaced by a numeral before the body is parsed, so a text with an
  unmatched opening parenthesis yields a sum of two terms, on the sites 0 and 10.
\<close>

theorem template_parenthesis_counterexample:
  "\<not> balanced ''_SUM[i,0,1,1.0*X{i}{(}]'' \<and>
   tryParse demo_services ''_SUM[i,0,1,1.0*X{i}{(}]'' [] =
     Inr (Some (SumTerm [TimeIndependentTerm 1 [(OpX, 0)], TimeIndependentTerm 1 [(OpX, 10)]]))"
  by (simp add: demo_eval balanced_def)

end
